theory Spec2Isabelle
  imports Main "HOL-Library.Char_ord" "HOL-Library.List_Lexorder"
begin

section \<open>Data model\<close>

text \<open>
  JavaScript strings are compared by code unit, lexicographically, a proper prefix being
  smaller: the order that \<open>Char_ord\<close> and \<open>List_Lexorder\<close> give to \<open>string\<close>.
\<close>

text \<open>
  A variable record, with the fields that \<open>Model.js\<close> reads and writes. \<open>R.equals\<close>,
  \<open>R.contains\<close> and \<open>R.uniq\<close> compare records field by field, which is equality of records here.
\<close>

record variable =
  modelLHS :: string
  modelFormula :: string
  varName :: string
  subscripts :: "string list"
  refId :: string
  varType :: string
  hasInitValue :: bool
  references :: "string list"
  initReferences :: "string list"
  separationDims :: "string list"

text \<open>
  A dimension of the subscript registry. A mapping value is a JavaScript array that may have
  holes once it has been inverted (\<open>invertedMappingValue[toIndNumber] = fromIndName\<close>), so its
  elements are options, \<open>None\<close> standing for a hole or \<open>undefined\<close>.
\<close>

record dimension =
  name :: string
  "value" :: "string list"
  dsize :: nat
  family :: string
  mappings :: "(string \<times> string option list) list"

datatype subscript =
    Dimension dimension
  | Index (iname: string) (ivalue: nat) (ifamily: string)

datatype error =
    TypeError
  | ReferenceError string
  | DependencyCycle

fun subName :: "subscript \<Rightarrow> string" where
  "subName (Dimension d) = name d"
| "subName (Index n i f) = n"

fun subFamily :: "subscript \<Rightarrow> string" where
  "subFamily (Dimension d) = family d"
| "subFamily (Index n i f) = f"

text \<open>\<open>xs[i]\<close> in JavaScript: \<open>undefined\<close> (here \<open>None\<close>) out of range.\<close>

definition nth_opt :: "'a list \<Rightarrow> nat \<Rightarrow> 'a option" where
  "nth_opt xs i = (if i < length xs then Some (xs ! i) else None)"

text \<open>\<open>Array.prototype.join\<close> on an array of strings.\<close>

fun join :: "string \<Rightarrow> string list \<Rightarrow> string" where
  "join sep [] = []"
| "join sep [x] = x"
| "join sep (x # y # ys) = x @ sep @ join sep (y # ys)"

section \<open>The subscript registry (\<open>Subscript.js\<close>)\<close>

text \<open>
  Modelled from the spec: \<open>Subscript.js\<close> is not among the sources. The registry is a map from
  canonical names to subscripts, kept here as the list of its entries in insertion order;
  \<open>sub(name)\<close> looks a name up, \<open>isDimension(name)\<close> and \<open>isIndex(name)\<close> tell which kind of
  subscript a name is bound to (neither for an unknown name).
\<close>

definition sub :: "subscript list \<Rightarrow> string \<Rightarrow> subscript option" where
  "sub reg nm = find (\<lambda>s. subName s = nm) reg"

definition isDimension :: "subscript list \<Rightarrow> string \<Rightarrow> bool" where
  "isDimension reg nm = (case sub reg nm of Some (Dimension d) \<Rightarrow> True | _ \<Rightarrow> False)"

definition isIndex :: "subscript list \<Rightarrow> string \<Rightarrow> bool" where
  "isIndex reg nm = (case sub reg nm of Some (Index n i f) \<Rightarrow> True | _ \<Rightarrow> False)"

definition familyOf :: "subscript list \<Rightarrow> string \<Rightarrow> string" where
  "familyOf reg nm = (case sub reg nm of Some s \<Rightarrow> subFamily s | None \<Rightarrow> [])"

text \<open>
  Modelled from the spec: \<open>normalizeSubscripts(list)\<close> sorts a subscript list by family in
  ascending order (a stable sort, on the family names of the subscripts looked up in the
  registry). Reading the family of a name that the registry does not know is a \<open>TypeError\<close>.
\<close>

definition normalizeSubscripts :: "subscript list \<Rightarrow> string list \<Rightarrow> error + string list" where
  "normalizeSubscripts reg subs =
     (if list_all (\<lambda>s. sub reg s \<noteq> None) subs
      then Inr (sort_key (familyOf reg) subs)
      else Inl TypeError)"

section \<open>Reference identifiers (\<open>Model.js\<close>)\<close>

text \<open>
  Modelled from the spec: \<open>Variable.hasSubscripts\<close> (in \<open>Variable.js\<close>, not among the sources)
  tells whether the record has a subscript at all.
\<close>

definition hasSubscripts :: "variable \<Rightarrow> bool" where
  "hasSubscripts v = (subscripts v \<noteq> [])"

text \<open>\<open>nonAtoANames\<close>: the registry of non-apply-to-all names with their expansion flags.\<close>

definition isNonAtoAName :: "(string \<rightharpoonup> bool list) \<Rightarrow> string \<Rightarrow> bool" where
  "isNonAtoAName nonAtoANames nm = (nonAtoANames nm \<noteq> None)"

definition refIdForVar :: "(string \<rightharpoonup> bool list) \<Rightarrow> variable \<Rightarrow> string" where
  "refIdForVar nonAtoANames v =
     (if hasSubscripts v \<and> isNonAtoAName nonAtoANames (varName v)
      then varName v @ ''['' @ join '','' (subscripts v) @ '']''
      else varName v)"

definition varsWithName :: "variable list \<Rightarrow> string \<Rightarrow> variable list" where
  "varsWithName variables nm = filter (\<lambda>v. varName v = nm) variables"

text \<open>\<open>R.uniq\<close> keeps the first occurrence of each element.\<close>

fun uniq :: "'a list \<Rightarrow> 'a list" where
  "uniq [] = []"
| "uniq (x # xs) = x # uniq (filter (\<lambda>y. y \<noteq> x) xs)"

definition varNames :: "variable list \<Rightarrow> string list" where
  "varNames variables = sort (uniq (map varName variables))"

definition areSubsEqual :: "variable list \<Rightarrow> nat \<Rightarrow> bool" where
  "areSubsEqual vars i =
     (case vars of
        [] \<Rightarrow> True
      | v0 # _ \<Rightarrow> list_all (\<lambda>v. nth_opt (subscripts v) i = nth_opt (subscripts v0) i) vars)"

definition expansionDims :: "variable list \<Rightarrow> bool list" where
  "expansionDims vars =
     (case vars of
        [] \<Rightarrow> []
      | v0 # _ \<Rightarrow> map (\<lambda>i. \<not> areSubsEqual vars i) [0 ..< length (subscripts v0)])"

definition findNonAtoAVars ::
  "variable list \<Rightarrow> (string \<rightharpoonup> bool list) \<Rightarrow> (string \<rightharpoonup> bool list)" where
  "findNonAtoAVars variables nonAtoANames =
     foldl (\<lambda>reg nm.
              let vars = varsWithName variables nm
              in if 1 < length vars then reg(nm \<mapsto> expansionDims vars) else reg)
       nonAtoANames (varNames variables)"

text \<open>
  \<open>addNonAtoAVar\<close>, which the module exports: it enters a name in the registry, whatever the
  number of records that have the name.
\<close>

definition addNonAtoAVar ::
  "string \<Rightarrow> bool list \<Rightarrow> (string \<rightharpoonup> bool list) \<Rightarrow> (string \<rightharpoonup> bool list)" where
  "addNonAtoAVar nm flags nonAtoANames = nonAtoANames(nm \<mapsto> flags)"

definition setRefIds :: "(string \<rightharpoonup> bool list) \<Rightarrow> variable list \<Rightarrow> variable list" where
  "setRefIds nonAtoANames variables =
     map (\<lambda>v. v\<lparr>refId := refIdForVar nonAtoANames v\<rparr>) variables"

subsection \<open>Splitting a reference identifier\<close>

text \<open>\<open>\w\<close> without the unicode flag: an ASCII letter, a digit or the underscore.\<close>

definition isWordChar :: "char \<Rightarrow> bool" where
  "isWordChar c =
     ((CHR ''a'' \<le> c \<and> c \<le> CHR ''z'') \<or> (CHR ''A'' \<le> c \<and> c \<le> CHR ''Z'')
      \<or> (CHR ''0'' \<le> c \<and> c \<le> CHR ''9'') \<or> c = CHR ''_'')"

text \<open>
  The successive matches of the global regular expression \<open>/\w+|\[/g\<close>: at each position
  the longest run of word characters, or else an opening bracket, or else the scan moves on
  by one character.
\<close>

function matchAll :: "string \<Rightarrow> string list" where
  "matchAll [] = []"
| "matchAll (c # cs) =
     (if isWordChar c then takeWhile isWordChar (c # cs) # matchAll (dropWhile isWordChar cs)
      else if c = CHR ''['' then ''['' # matchAll cs
      else matchAll cs)"
  by pat_completeness auto
termination
  by (relation "measure length") (auto simp: less_Suc_eq_le length_dropWhile_le)

text \<open>The loop of \<open>splitRefId\<close> over the matches, with its three variables.\<close>

fun splitLoop :: "string list \<Rightarrow> bool \<Rightarrow> string \<Rightarrow> string list \<Rightarrow> string \<times> string list" where
  "splitLoop [] inSubs vn subs = (vn, subs)"
| "splitLoop (m # ms) inSubs vn subs =
     (if m = ''['' then splitLoop ms True vn subs
      else if inSubs then splitLoop ms inSubs vn (subs @ [m])
      else splitLoop ms inSubs m subs)"

definition splitRefId :: "subscript list \<Rightarrow> string \<Rightarrow> error + (string \<times> string list)" where
  "splitRefId reg rid =
     (case splitLoop (matchAll rid) False [] [] of
        (vn, subs) \<Rightarrow>
          (case normalizeSubscripts reg subs of
             Inl e \<Rightarrow> Inl e
           | Inr nsubs \<Rightarrow> Inr (vn, nsubs)))"

subsection \<open>Looking a variable up by reference identifier\<close>

definition refIdsWithName :: "variable list \<Rightarrow> string \<Rightarrow> string list" where
  "refIdsWithName variables nm = map refId (varsWithName variables nm)"

text \<open>
  One position of the comparison in \<open>varWithRefId\<close>: \<open>vs\<close> is the subscript of the variable,
  \<open>rs\<close> the subscript of the reference at the same position, \<open>None\<close> when the reference has
  fewer subscripts (\<open>isIndex(undefined)\<close> and \<open>isDimension(undefined)\<close> are false, which leaves the
  last branch). The result is whether the loop goes on.
\<close>

definition posMatches :: "subscript list \<Rightarrow> string \<Rightarrow> string option \<Rightarrow> bool" where
  "posMatches reg vs rso =
     (case rso of
        None \<Rightarrow> False
      | Some rs \<Rightarrow>
          if (isIndex reg vs \<and> isIndex reg rs) \<or> (isDimension reg vs \<and> isDimension reg rs)
          then vs = rs
          else if isDimension reg vs \<and> isIndex reg rs
          then (case sub reg vs of Some (Dimension d) \<Rightarrow> rs \<in> set (value d) | _ \<Rightarrow> False)
          else False)"

text \<open>The loop over the positions of the variable's subscripts, left at the first mismatch.\<close>

fun matchLoop :: "subscript list \<Rightarrow> string list \<Rightarrow> string list \<Rightarrow> nat \<Rightarrow> bool" where
  "matchLoop reg [] refSubscripts pos = True"
| "matchLoop reg (s # ss) refSubscripts pos =
     (if posMatches reg s (nth_opt refSubscripts pos)
      then matchLoop reg ss refSubscripts (Suc pos)
      else False)"

text \<open>The loop over the reference identifiers of the records of that name, left at the first match.\<close>

fun findMatch ::
  "subscript list \<Rightarrow> variable list \<Rightarrow> string list \<Rightarrow> string list \<Rightarrow> error + variable option" where
  "findMatch reg variables refSubscripts [] = Inr None"
| "findMatch reg variables refSubscripts (varRefId # rest) =
     (case splitRefId reg varRefId of
        Inl e \<Rightarrow> Inl e
      | Inr (vn, subs) \<Rightarrow>
          if matchLoop reg subs refSubscripts 0
          then Inr (find (\<lambda>v. refId v = varRefId) variables)
          else findMatch reg variables refSubscripts rest)"

definition varWithRefId :: "subscript list \<Rightarrow> variable list \<Rightarrow> string \<Rightarrow> error + variable option" where
  "varWithRefId reg variables rid =
     (case find (\<lambda>v. refId v = rid) variables of
        Some v \<Rightarrow> Inr (Some v)
      | None \<Rightarrow>
          (case splitRefId reg rid of
             Inl e \<Rightarrow> Inl e
           | Inr (refVarName, refSubscripts) \<Rightarrow>
               findMatch reg variables refSubscripts (refIdsWithName variables refVarName)))"

subsection \<open>Constant-reference pruning\<close>

definition refIsConst :: "subscript list \<Rightarrow> variable list \<Rightarrow> string \<Rightarrow> error + bool" where
  "refIsConst reg variables rid =
     (case varWithRefId reg variables rid of
        Inl e \<Rightarrow> Inl e
      | Inr None \<Rightarrow> Inr False
      | Inr (Some v) \<Rightarrow>
          Inr (varType v = ''const'' \<or> varType v = ''data'' \<or> varType v = ''lookup''))"

text \<open>\<open>R.reject\<close> with a predicate that may throw: the first exception ends the traversal.\<close>

fun reject :: "('a \<Rightarrow> error + bool) \<Rightarrow> 'a list \<Rightarrow> error + 'a list" where
  "reject p [] = Inr []"
| "reject p (x # xs) =
     (case p x of
        Inl e \<Rightarrow> Inl e
      | Inr b \<Rightarrow>
          (case reject p xs of
             Inl e \<Rightarrow> Inl e
           | Inr ys \<Rightarrow> Inr (if b then ys else x # ys)))"

text \<open>
  \<open>removeConstRefs\<close> rewrites the records of the table in place, one after the other;
  \<open>done\<close> holds the records already rewritten and the second list those still to come, so
  that each lookup sees the table as it is at that moment.
\<close>

fun removeLoop :: "subscript list \<Rightarrow> variable list \<Rightarrow> variable list \<Rightarrow> error + variable list" where
  "removeLoop reg done [] = Inr done"
| "removeLoop reg done (v # todo) =
     (case reject (refIsConst reg (done @ v # todo)) (references v) of
        Inl e \<Rightarrow> Inl e
      | Inr refs \<Rightarrow>
          (let v1 = v\<lparr>references := refs\<rparr>
           in case reject (refIsConst reg (done @ v1 # todo)) (initReferences v1) of
                Inl e \<Rightarrow> Inl e
              | Inr irefs \<Rightarrow> removeLoop reg (done @ [v1\<lparr>initReferences := irefs\<rparr>]) todo))"

definition removeConstRefs :: "subscript list \<Rightarrow> variable list \<Rightarrow> error + variable list" where
  "removeConstRefs reg variables = removeLoop reg [] variables"

subsection \<open>The analysis and the equations added after it\<close>

text \<open>
  Modelled from the spec: the equation reader (\<open>EquationReader.js\<close>) is not among the sources.
  \<open>readEquation\<close> stands for what its \<open>read\<close> does to one record, the table being as it is at
  that moment; it fills the references, the init references and the type of the record.
  \<open>readEquations\<close> applies it to the records of the table in place, one after the other.
\<close>

fun readLoop ::
  "(variable list \<Rightarrow> variable \<Rightarrow> variable) \<Rightarrow> variable list \<Rightarrow> variable list \<Rightarrow> variable list" where
  "readLoop readEquation done [] = done"
| "readLoop readEquation done (v # todo) =
     readLoop readEquation (done @ [readEquation (done @ v # todo) v]) todo"

definition readEquations ::
  "(variable list \<Rightarrow> variable \<Rightarrow> variable) \<Rightarrow> variable list \<Rightarrow> variable list" where
  "readEquations readEquation variables = readLoop readEquation [] variables"

text \<open>
  \<open>analyze\<close>: the four passes in their order, on the table and the registry that the variable
  reader has left.
\<close>

definition analyze ::
  "(variable list \<Rightarrow> variable \<Rightarrow> variable) \<Rightarrow> subscript list
     \<Rightarrow> variable list \<times> (string \<rightharpoonup> bool list)
     \<Rightarrow> error + variable list \<times> (string \<rightharpoonup> bool list)" where
  "analyze readEquation reg state =
     (case state of
        (variables, nonAtoANames) \<Rightarrow>
          (let nonAtoANames1 = findNonAtoAVars variables nonAtoANames;
               variables1 = setRefIds nonAtoANames1 variables;
               variables2 = readEquations readEquation variables1
           in case removeConstRefs reg variables2 of
                Inl e \<Rightarrow> Inl e
              | Inr variables3 \<Rightarrow> Inr (variables3, nonAtoANames1)))"

text \<open>
  \<open>addEquation\<close>, which \<open>checkSpecVars\<close> calls after the analysis. Modelled from the spec: the
  variable reader (\<open>VariableReader.js\<close>) is not among the sources; \<open>v\<close> is the record that it
  reads from the equation and adds at the end of the table. The reference identifier of the
  record is then filled in from the registry as it is, and the equation is read.
\<close>

definition addEquation ::
  "(variable list \<Rightarrow> variable \<Rightarrow> variable) \<Rightarrow> (string \<rightharpoonup> bool list)
     \<Rightarrow> variable list \<Rightarrow> variable \<Rightarrow> variable list" where
  "addEquation readEquation nonAtoANames variables v =
     (let v1 = v\<lparr>refId := refIdForVar nonAtoANames v\<rparr>
      in variables @ [readEquation (variables @ [v1]) v1])"

subsection \<open>The reference identifier in the words of the specification\<close>

text \<open>
  The identifier of a record has the subscripts of the record when the record has subscripts
  and more than one record of the table has its name, and is the bare name otherwise.
\<close>

definition refIdAsClaimed :: "variable list \<Rightarrow> variable \<Rightarrow> string" where
  "refIdAsClaimed variables v =
     (if subscripts v \<noteq> [] \<and> 1 < length (varsWithName variables (varName v))
      then varName v @ ''['' @ join '','' (subscripts v) @ '']''
      else varName v)"

subsection \<open>The matching rules in the words of the specification\<close>

text \<open>
  One position: equal indices match, equal dimensions match, a dimension on the variable
  matches an index on the reference when the dimension's value contains the index; nothing
  else matches, in particular not an index on the variable with a dimension on the reference.
\<close>

definition dimensionContains :: "subscript list \<Rightarrow> string \<Rightarrow> string \<Rightarrow> bool" where
  "dimensionContains reg dimName ind =
     (\<exists>d. sub reg dimName = Some (Dimension d) \<and> ind \<in> set (value d))"

definition subscriptMatches :: "subscript list \<Rightarrow> string \<Rightarrow> string \<Rightarrow> bool" where
  "subscriptMatches reg vs rs =
     ((isIndex reg vs \<and> isIndex reg rs \<and> vs = rs)
      \<or> (isDimension reg vs \<and> isDimension reg rs \<and> vs = rs)
      \<or> (isDimension reg vs \<and> isIndex reg rs \<and> dimensionContains reg vs rs))"

definition subsumes :: "subscript list \<Rightarrow> string list \<Rightarrow> string list \<Rightarrow> bool" where
  "subsumes reg varSubs refSubs =
     (\<forall>pos < length varSubs.
        pos < length refSubs \<and> subscriptMatches reg (varSubs ! pos) (refSubs ! pos))"

text \<open>
  A reference identifier is a name, followed by subscripts in brackets when there are some.
\<close>

definition refIdOf :: "string \<Rightarrow> string list \<Rightarrow> string" where
  "refIdOf nm subs = (if subs = [] then nm else nm @ ''['' @ join '','' subs @ '']'')"

text \<open>
  A record binds the reference to a name with subscripts directly, by equality of reference
  identifiers, or by subsumption: it has the name of the reference and its own subscripts
  subsume those of the reference.
\<close>

definition bindsAsClaimed :: "subscript list \<Rightarrow> variable \<Rightarrow> string \<Rightarrow> string list \<Rightarrow> bool" where
  "bindsAsClaimed reg v nm refSubs =
     (refId v = refIdOf nm refSubs \<or> (varName v = nm \<and> subsumes reg (subscripts v) refSubs))"

subsection \<open>The matching rules as the lookup applies them\<close>

text \<open>
  The lookup compares the reference with the subscripts that stand in the reference identifier
  of the record: those of the record when its name is non-apply-to-all, none otherwise, so
  that the record of an apply-to-all array or of a scalar matches every reference to its
  name. It takes the record whose identifier is the reference, and failing that the first
  record of the table that has the name of the reference and matches it.
\<close>

definition refIdSubscripts :: "(string \<rightharpoonup> bool list) \<Rightarrow> variable \<Rightarrow> string list" where
  "refIdSubscripts nonAtoANames v =
     (if isNonAtoAName nonAtoANames (varName v) then subscripts v else [])"

definition bindsByRefId ::
  "(string \<rightharpoonup> bool list) \<Rightarrow> subscript list \<Rightarrow> variable \<Rightarrow> string \<Rightarrow> string list \<Rightarrow> bool" where
  "bindsByRefId nonAtoANames reg v nm refSubs =
     (varName v = nm \<and> subsumes reg (refIdSubscripts nonAtoANames v) refSubs)"

definition resolves ::
  "(string \<rightharpoonup> bool list) \<Rightarrow> subscript list \<Rightarrow> variable list \<Rightarrow> string \<Rightarrow> string list
     \<Rightarrow> string list \<Rightarrow> variable option" where
  "resolves nonAtoANames reg variables nm refSubs normSubs =
     (case find (\<lambda>v. refId v = refIdOf nm refSubs) variables of
        Some v \<Rightarrow> Some v
      | None \<Rightarrow> find (\<lambda>v. bindsByRefId nonAtoANames reg v nm normSubs) variables)"

text \<open>A word: a non-empty string of word characters, as \<open>\w+\<close> matches it.\<close>

definition isWord :: "string \<Rightarrow> bool" where
  "isWord s = (s \<noteq> [] \<and> list_all isWordChar s)"

section \<open>Evaluation orders (\<open>Model.js\<close>)\<close>

subsection \<open>Topological sorting\<close>

text \<open>
  \<open>a\<close> stands before \<open>b\<close> in a list: \<open>b\<close> occurs in it and \<open>a\<close> occurs before the first
  occurrence of \<open>b\<close>.
\<close>

definition precedes :: "'a \<Rightarrow> 'a \<Rightarrow> 'a list \<Rightarrow> bool" where
  "precedes a b xs = (a \<in> set (takeWhile (\<lambda>x. x \<noteq> b) xs) \<and> b \<in> set xs)"

definition graphNodes :: "('a \<times> 'a) list \<Rightarrow> 'a set" where
  "graphNodes graph = fst ` set graph \<union> snd ` set graph"

text \<open>
  Modelled from the spec: the module \<open>toposort\<close> is not among the sources. The functions below
  take it as the parameter \<open>toposort\<close>, from an edge list to the sorted list of its nodes,
  \<open>None\<close> standing for the exception that it throws on a cycle. What the spec says of it is
  that it sorts topologically: the result lists every node of the graph once, and for every
  edge the first node stands before the second (the reversal of the result then places
  prerequisites first).
\<close>

definition isTopologicalOrder :: "('a \<times> 'a) list \<Rightarrow> 'a list \<Rightarrow> bool" where
  "isTopologicalOrder graph order =
     (distinct order \<and> set order = graphNodes graph \<and>
      list_all (\<lambda>(a, b). precedes a b order) graph)"

definition sortsTopologically :: "(('a \<times> 'a) list \<Rightarrow> 'a list option) \<Rightarrow> bool" where
  "sortsTopologically toposort =
     (\<forall>graph order. toposort graph = Some order \<longrightarrow> isTopologicalOrder graph order)"

text \<open>
  Modelled from the spec: a topological sort to stand for the module in the examples. It
  takes, again and again, the first remaining node that no edge enters from a remaining node,
  and fails when nodes remain and every one of them is entered.
\<close>

fun selectLoop :: "nat \<Rightarrow> ('a \<times> 'a) list \<Rightarrow> 'a list \<Rightarrow> 'a list option" where
  "selectLoop 0 graph remaining = (if remaining = [] then Some [] else None)"
| "selectLoop (Suc fuel) graph remaining =
     (if remaining = [] then Some []
      else (case find (\<lambda>n. list_all (\<lambda>(a, b). b \<noteq> n \<or> a \<notin> set remaining) graph) remaining of
              None \<Rightarrow> None
            | Some n \<Rightarrow>
                (case selectLoop fuel graph (removeAll n remaining) of
                   None \<Rightarrow> None
                 | Some rest \<Rightarrow> Some (n # rest))))"

definition toposortBySelection :: "('a \<times> 'a) list \<Rightarrow> 'a list option" where
  "toposortBySelection graph =
     (let nodes = remdups (concat (map (\<lambda>(a, b). [a, b]) graph))
      in selectLoop (length nodes) graph nodes)"

subsection \<open>Step-time orders\<close>

text \<open>\<open>R.map\<close> with a function that may throw: the first exception ends the traversal.\<close>

fun mapE :: "('a \<Rightarrow> error + 'b) \<Rightarrow> 'a list \<Rightarrow> error + 'b list" where
  "mapE f [] = Inr []"
| "mapE f (x # xs) =
     (case f x of
        Inl e \<Rightarrow> Inl e
      | Inr y \<Rightarrow> (case mapE f xs of Inl e \<Rightarrow> Inl e | Inr ys \<Rightarrow> Inr (y # ys)))"

definition varsOfType :: "string \<Rightarrow> variable list \<Rightarrow> variable list" where
  "varsOfType ty vars = filter (\<lambda>v. varType v = ty \<and> varName v \<noteq> ''_time'') vars"

text \<open>
  A property of a looked-up record is read: for \<open>undefined\<close>, the result of a lookup that found
  no record, this is a \<open>TypeError\<close>.
\<close>

definition defined :: "variable option \<Rightarrow> error + variable" where
  "defined r = (case r of None \<Rightarrow> Inl TypeError | Some v \<Rightarrow> Inr v)"

definition lookupDefined :: "subscript list \<Rightarrow> variable list \<Rightarrow> string \<Rightarrow> error + variable" where
  "lookupDefined reg variables rid =
     (case varWithRefId reg variables rid of Inl e \<Rightarrow> Inl e | Inr r \<Rightarrow> defined r)"

text \<open>
  Modelled from the spec: \<open>vsort\<close> (in \<open>Helpers.js\<close>, not among the sources) sorts a list of
  records by reference identifier.
\<close>

definition vsort :: "variable list \<Rightarrow> variable list" where
  "vsort vars = sort_key refId vars"

text \<open>
  The inner function \<open>refs\<close> of \<open>sortVarsOfType\<close>: the dependency pairs of one record. All the
  references are looked up first, then those of the type are kept.
\<close>

definition refsOfVar ::
  "subscript list \<Rightarrow> variable list \<Rightarrow> string \<Rightarrow> variable \<Rightarrow> error + (string \<times> string) list" where
  "refsOfVar reg variables ty v =
     (case mapE (varWithRefId reg variables) (references v) of
        Inl e \<Rightarrow> Inl e
      | Inr looked \<Rightarrow>
          (case mapE defined looked of
             Inl e \<Rightarrow> Inl e
           | Inr refs \<Rightarrow>
               Inr (map (\<lambda>ref. if varType v = ''level'' \<and> varType ref = ''level''
                                 then (refId ref, refId v)
                                 else (refId v, refId ref))
                      (uniq (filter (\<lambda>ref. varType ref = ty) refs)))))"

definition sortVarsOfType ::
  "((string \<times> string) list \<Rightarrow> string list option) \<Rightarrow> subscript list \<Rightarrow> variable list
     \<Rightarrow> string \<Rightarrow> error + variable list" where
  "sortVarsOfType toposort reg variables ty =
     (let vars = varsOfType ty variables
      in case mapE (refsOfVar reg variables ty) vars of
           Inl e \<Rightarrow> Inl e
         | Inr pairs \<Rightarrow>
             (case toposort (concat pairs) of
                None \<Rightarrow> Inl DependencyCycle
              | Some order \<Rightarrow>
                  (case mapE (lookupDefined reg variables) (rev order) of
                     Inl e \<Rightarrow> Inl e
                   | Inr looked \<Rightarrow>
                       (let sortedVars = varsOfType ty looked;
                            nodepVars = vsort (filter (\<lambda>v. v \<notin> set sortedVars) vars)
                        in Inr (nodepVars @ sortedVars)))))"

text \<open>
  The dependency of the claim, in the words of the specification: \<open>v\<close> is a record of the
  type, one of its references resolves to the record \<open>r\<close>, and \<open>r\<close> is of the type too.
\<close>

definition stepDependency ::
  "subscript list \<Rightarrow> variable list \<Rightarrow> string \<Rightarrow> variable \<Rightarrow> variable \<Rightarrow> bool" where
  "stepDependency reg variables ty v r =
     (v \<in> set (varsOfType ty variables) \<and> varType r = ty \<and>
      (\<exists>rid \<in> set (references v). varWithRefId reg variables rid = Inr (Some r)))"

definition inStepGraph :: "subscript list \<Rightarrow> variable list \<Rightarrow> string \<Rightarrow> variable \<Rightarrow> bool" where
  "inStepGraph reg variables ty v =
     (\<exists>w. stepDependency reg variables ty v w \<or> stepDependency reg variables ty w v)"

subsection \<open>Init-time order\<close>

text \<open>
  The map of dependencies is a JavaScript \<open>Map\<close>, which keeps its keys in the order of their
  first insertion: a list of pairs with distinct keys, \<open>set\<close> replacing the value of a key
  in place or adding the key at the end.
\<close>

fun mapSet :: "('k \<times> 'v) list \<Rightarrow> 'k \<Rightarrow> 'v \<Rightarrow> ('k \<times> 'v) list" where
  "mapSet [] k v = [(k, v)]"
| "mapSet (p # ps) k v = (if fst p = k then (k, v) # ps else p # mapSet ps k v)"

definition initRefIds :: "variable \<Rightarrow> string list" where
  "initRefIds v = (if hasInitValue v then initReferences v else references v)"

text \<open>
  The \<open>forEach\<close> of \<open>addDepsToMap\<close> over the reference identifiers of a record, \<open>vars\<close> being the
  queue, to which records are pushed at the end. An array stored in the map is truthy.
\<close>

fun pushRefs ::
  "subscript list \<Rightarrow> variable list \<Rightarrow> (string \<times> string list) list \<Rightarrow> string list
     \<Rightarrow> variable list \<Rightarrow> error + variable list" where
  "pushRefs reg variables depsMap [] vars = Inr vars"
| "pushRefs reg variables depsMap (rid # rest) vars =
     (if map_of depsMap rid \<noteq> None then pushRefs reg variables depsMap rest vars
      else (case varWithRefId reg variables rid of
              Inl e \<Rightarrow> Inl e
            | Inr None \<Rightarrow> pushRefs reg variables depsMap rest vars
            | Inr (Some refVar) \<Rightarrow>
                if varType refVar \<noteq> ''const'' \<and> refVar \<notin> set vars
                then pushRefs reg variables depsMap rest (vars @ [refVar])
                else pushRefs reg variables depsMap rest vars))"

definition addDepsToMap ::
  "subscript list \<Rightarrow> variable list \<Rightarrow> variable \<Rightarrow> variable list
     \<Rightarrow> (string \<times> string list) list
     \<Rightarrow> error + (variable list \<times> (string \<times> string list) list)" where
  "addDepsToMap reg variables v vars depsMap =
     (let refIds = initRefIds v
      in if 0 < length refIds
         then (let depsMap' = mapSet depsMap (refId v) refIds
               in case pushRefs reg variables depsMap' refIds vars of
                    Inl e \<Rightarrow> Inl e
                  | Inr vars' \<Rightarrow> Inr (vars', depsMap'))
         else Inr (vars, depsMap))"

text \<open>
  The \<open>while (vars.length > 0)\<close> loop, which pops the last record of the queue. Nothing
  bounds the number of its rounds, so it is a partial function.
\<close>

partial_function (option) depsLoop ::
  "subscript list \<Rightarrow> variable list \<Rightarrow> variable list \<Rightarrow> (string \<times> string list) list
     \<Rightarrow> (error + (string \<times> string list) list) option" where
  "depsLoop reg variables vars depsMap =
     (if vars = [] then Some (Inr depsMap)
      else (case addDepsToMap reg variables (last vars) (butlast vars) depsMap of
              Inl e \<Rightarrow> Some (Inl e)
            | Inr (vars', depsMap') \<Rightarrow> depsLoop reg variables vars' depsMap'))"

definition graphOfMap :: "(string \<times> string list) list \<Rightarrow> (string \<times> string) list" where
  "graphOfMap depsMap = concat (map (\<lambda>(rid, deps). map (\<lambda>dep. (rid, dep)) deps) depsMap)"

definition sortInitVars ::
  "((string \<times> string) list \<Rightarrow> string list option) \<Rightarrow> subscript list \<Rightarrow> variable list
     \<Rightarrow> (error + variable list) option" where
  "sortInitVars toposort reg variables =
     (let initVars = filter (\<lambda>v. hasInitValue v) variables
      in case depsLoop reg variables initVars [] of
           None \<Rightarrow> None
         | Some (Inl e) \<Rightarrow> Some (Inl e)
         | Some (Inr depsMap) \<Rightarrow>
             (case toposort (graphOfMap depsMap) of
                None \<Rightarrow> Some (Inl DependencyCycle)
              | Some order \<Rightarrow>
                  (case mapE (lookupDefined reg variables) (rev order) of
                     Inl e \<Rightarrow> Some (Inl e)
                   | Inr looked \<Rightarrow>
                       (let sortedVars = filter (\<lambda>v. \<not> (varType v = ''const'' \<or> varType v = ''lookup''))
                                           looked;
                            nodepVars = vsort (filter (\<lambda>v. v \<notin> set sortedVars) initVars)
                        in Some (Inr (nodepVars @ sortedVars))))))"

text \<open>
  The closure of the claim, in the words of the specification: the records with an init
  value, and every record that a reference identifier of a record of the closure resolves
  to, the identifiers being the init references of a record that has an init value and its
  references otherwise.
\<close>

inductive_set initClosure :: "subscript list \<Rightarrow> variable list \<Rightarrow> variable set"
  for reg :: "subscript list" and variables :: "variable list" where
  seed: "v \<in> set variables \<Longrightarrow> hasInitValue v \<Longrightarrow> v \<in> initClosure reg variables"
| step: "v \<in> initClosure reg variables \<Longrightarrow> rid \<in> set (initRefIds v) \<Longrightarrow>
         varWithRefId reg variables rid = Inr (Some r) \<Longrightarrow> r \<in> initClosure reg variables"

text \<open>
  The records that the worklist visits: the records with an init value, and every record
  not of type \<open>const\<close> that a reference identifier of a visited record resolves to (the loop
  does not put a record of type \<open>const\<close> on the queue).
\<close>

inductive_set initVisited :: "subscript list \<Rightarrow> variable list \<Rightarrow> variable set"
  for reg :: "subscript list" and variables :: "variable list" where
  seed: "v \<in> set variables \<Longrightarrow> hasInitValue v \<Longrightarrow> v \<in> initVisited reg variables"
| step: "v \<in> initVisited reg variables \<Longrightarrow> rid \<in> set (initRefIds v) \<Longrightarrow>
         varWithRefId reg variables rid = Inr (Some r) \<Longrightarrow> varType r \<noteq> ''const'' \<Longrightarrow>
         r \<in> initVisited reg variables"

section \<open>Reading the subscript ranges (\<open>readSubscriptRanges\<close>)\<close>

text \<open>
  Until the indices are defined, the registry holds dimensions only: \<open>allDimensions()\<close> is the
  list of its entries, \<open>sub(name)\<close> finds the dimension of that name and \<open>isDimension(name)\<close>
  tells whether there is one. The passes below rewrite the dimensions in place.
\<close>

definition subDim :: "dimension list \<Rightarrow> string \<Rightarrow> dimension option" where
  "subDim allDims nm = find (\<lambda>d. name d = nm) allDims"

subsection \<open>Expansion of dimensions\<close>

text \<open>
  The new value of a dimension in one round: every subscript of its value that names a
  dimension is replaced by the value of that dimension as it is at that moment, and the
  result is flattened.
\<close>

definition expandValue :: "dimension list \<Rightarrow> dimension \<Rightarrow> string list" where
  "expandValue allDims dim =
     concat (map (\<lambda>subscript. case subDim allDims subscript of
                                  Some d \<Rightarrow> value d
                                | None \<Rightarrow> [subscript]) (value dim))"

text \<open>
  One round of the \<open>for\<close> loop over the dimensions, each rewritten in place: \<open>done\<close> holds the
  dimensions already visited, and the flag tells whether a value has changed so far.
\<close>

fun expandPass :: "dimension list \<Rightarrow> dimension list \<Rightarrow> bool \<Rightarrow> dimension list \<times> bool" where
  "expandPass done [] dimFoundInValue = (done, dimFoundInValue)"
| "expandPass done (dim # todo) dimFoundInValue =
     (let v = expandValue (done @ dim # todo) dim
      in if v \<noteq> value dim
         then expandPass (done @ [dim\<lparr>value := v, dsize := length v\<rparr>]) todo True
         else expandPass (done @ [dim]) todo dimFoundInValue)"

text \<open>
  The \<open>do ... while (dimFoundInValue)\<close> loop. Nothing bounds the number of its rounds, so it
  is a partial function: \<open>None\<close> stands for a loop that does not end.
\<close>

partial_function (option) expandLoop :: "dimension list \<Rightarrow> dimension list option" where
  "expandLoop allDims =
     (if snd (expandPass [] allDims False)
      then expandLoop (fst (expandPass [] allDims False))
      else Some (fst (expandPass [] allDims False)))"

text \<open>
  The dimension-name graph: an edge from the name of a dimension to every name in its value
  that is the name of a dimension.
\<close>

definition dimGraph :: "dimension list \<Rightarrow> (string \<times> string) set" where
  "dimGraph allDims =
     {(name d, s) | d s. d \<in> set allDims \<and> s \<in> set (value d) \<and> subDim allDims s \<noteq> None}"

subsection \<open>Families\<close>

definition dimComparator :: "dimension \<Rightarrow> dimension \<Rightarrow> int" where
  "dimComparator dim1 dim2 =
     (if dsize dim1 < dsize dim2 then -1
      else if dsize dim1 > dsize dim2 then 1
      else if name dim1 > name dim2 then -1
      else if name dim1 < name dim2 then 1
      else 0)"

text \<open>
  \<open>R.sort(comparator, list)\<close> sorts a copy of the list with \<open>Array.prototype.sort\<close>. It is
  modelled by a stable insertion sort; the comparator above is a total preorder whose
  equivalent elements have the same size and name, so that the name of the last element does
  not depend on the sorting algorithm.
\<close>

fun insortWith :: "('a \<Rightarrow> 'a \<Rightarrow> int) \<Rightarrow> 'a \<Rightarrow> 'a list \<Rightarrow> 'a list" where
  "insortWith cmp x [] = [x]"
| "insortWith cmp x (y # ys) =
     (if cmp x y \<le> 0 then x # y # ys else y # insortWith cmp x ys)"

definition sortWith :: "('a \<Rightarrow> 'a \<Rightarrow> int) \<Rightarrow> 'a list \<Rightarrow> 'a list" where
  "sortWith cmp xs = foldr (insortWith cmp) xs []"

text \<open>
  \<open>dimensionFamilies && dimensionFamilies[dim.name]\<close>: the table of the spec file may be
  absent, and an entry counts when it is truthy, that is a non-empty string.
\<close>

definition familyOverride :: "(string \<rightharpoonup> string) option \<Rightarrow> string \<Rightarrow> string option" where
  "familyOverride dimensionFamilies nm =
     (case dimensionFamilies of
        None \<Rightarrow> None
      | Some table \<Rightarrow>
          (case table nm of
             None \<Rightarrow> None
           | Some f \<Rightarrow> if f = [] then None else Some f))"

text \<open>\<open>R.contains(index, list)\<close> where \<open>index\<close> may be \<open>undefined\<close>.\<close>

definition containsOpt :: "'a option \<Rightarrow> 'a list \<Rightarrow> bool" where
  "containsOpt x xs = (case x of None \<Rightarrow> False | Some y \<Rightarrow> y \<in> set xs)"

text \<open>The body of the family loop for one dimension, \<open>allDims\<close> being the registry at that moment.\<close>

definition setFamily ::
  "(string \<rightharpoonup> string) option \<Rightarrow> dimension list \<Rightarrow> dimension \<Rightarrow> dimension" where
  "setFamily dimensionFamilies allDims dim =
     (case familyOverride dimensionFamilies (name dim) of
        Some f \<Rightarrow> dim\<lparr>family := f\<rparr>
      | None \<Rightarrow>
          (let index = nth_opt (value dim) 0;
               familyDims = sortWith dimComparator
                              (filter (\<lambda>thisDim. containsOpt index (value thisDim)) allDims)
           in if 0 < length familyDims then dim\<lparr>family := name (last familyDims)\<rparr> else dim))"

fun familyLoop ::
  "(string \<rightharpoonup> string) option \<Rightarrow> dimension list \<Rightarrow> dimension list \<Rightarrow> dimension list" where
  "familyLoop dimensionFamilies done [] = done"
| "familyLoop dimensionFamilies done (dim # todo) =
     familyLoop dimensionFamilies
       (done @ [setFamily dimensionFamilies (done @ dim # todo) dim]) todo"

definition resolveFamilies ::
  "(string \<rightharpoonup> string) option \<Rightarrow> dimension list \<Rightarrow> dimension list" where
  "resolveFamilies dimensionFamilies allDims = familyLoop dimensionFamilies [] allDims"

text \<open>
  The family that the loop computes, stated on the registry: \<open>f\<close> is the name of a dimension
  that contains the index, that no dimension containing the index exceeds in size, and whose
  name is the least among the dimensions of that size containing the index.
\<close>

definition isFamilyOf :: "dimension list \<Rightarrow> string \<Rightarrow> string \<Rightarrow> bool" where
  "isFamilyOf allDims ix f =
     (\<exists>m \<in> set allDims. name m = f \<and> ix \<in> set (value m) \<and>
        (\<forall>e \<in> set allDims. ix \<in> set (value e) \<longrightarrow>
           dsize e < dsize m \<or> (dsize e = dsize m \<and> name m \<le> name e)))"

text \<open>The fields of a dimension that the family loop reads from the registry.\<close>

definition dimKey :: "dimension \<Rightarrow> string \<times> string list \<times> nat" where
  "dimKey d = (name d, value d, dsize d)"

subsection \<open>Mapping inversion\<close>

text \<open>
  By now the indices are defined, and the registry holds dimensions and indices. The pass
  writes the \<open>mappings\<close> of the dimensions only and reads their names, values and sizes only,
  so every lookup below is made in the registry as it is when the pass begins.
\<close>

text \<open>\<open>Array.prototype.indexOf\<close>: the first position of an element, \<open>None\<close> for \<open>-1\<close>.\<close>

fun indexOf :: "'a list \<Rightarrow> 'a \<Rightarrow> nat option" where
  "indexOf [] x = None"
| "indexOf (y # ys) x =
     (if y = x then Some 0 else (case indexOf ys x of None \<Rightarrow> None | Some k \<Rightarrow> Some (Suc k)))"

text \<open>
  \<open>a[k] = v\<close> on a JavaScript array: an assignment beyond the end extends the array and
  leaves holes in between.
\<close>

definition setAt :: "'a option list \<Rightarrow> nat \<Rightarrow> 'a \<Rightarrow> 'a option list" where
  "setAt a k v =
     (if k < length a then a[k := Some v]
      else a @ replicate (k - length a) None @ [Some v])"

text \<open>
  \<open>setMappingValue\<close>. Its error branch builds a diagnostic from \<open>toSubName\<close>, a variable that
  is declared inside the body of the loop that comes after the function and is not in the
  scope of the function: evaluating the message is a \<open>ReferenceError\<close>, and nothing is
  written to the console.
\<close>

definition setMappingValue ::
  "dimension \<Rightarrow> string option list \<Rightarrow> nat option \<Rightarrow> string \<Rightarrow> error + string option list" where
  "setMappingValue toDim inverted toIndNumber fromIndName =
     (case toIndNumber of
        Some k \<Rightarrow>
          if k < dsize toDim then Inr (setAt inverted k fromIndName)
          else Inl (ReferenceError ''toSubName'')
      | None \<Rightarrow> Inl (ReferenceError ''toSubName''))"

text \<open>
  The inner loop over the indices of a dimension named in the mapping value. \<open>toDim\<close> is the
  result of \<open>sub(toDimName)\<close>: reading \<open>toDim.value.indexOf\<close> is a \<open>TypeError\<close> unless it is a
  dimension.
\<close>

fun fillFromDimension ::
  "subscript option \<Rightarrow> string \<Rightarrow> string list \<Rightarrow> string option list \<Rightarrow> error + string option list" where
  "fillFromDimension toDim fromIndName [] inverted = Inr inverted"
| "fillFromDimension toDim fromIndName (toIndName # rest) inverted =
     (case toDim of
        Some (Dimension td) \<Rightarrow>
          (case setMappingValue td inverted (indexOf (value td) toIndName) fromIndName of
             Inl e \<Rightarrow> Inl e
           | Inr inverted' \<Rightarrow> fillFromDimension toDim fromIndName rest inverted')
      | _ \<Rightarrow> Inl TypeError)"

text \<open>
  The body of the loop over the positions of \<open>fromDim.value\<close>. \<open>mappingValue[i]\<close> is
  \<open>undefined\<close> beyond the end of the mapping value; \<open>sub(undefined)\<close> is \<open>undefined\<close> and
  reading its name is a \<open>TypeError\<close>, as is reading the name of an unknown subscript.
\<close>

definition fillPosition ::
  "subscript list \<Rightarrow> subscript option \<Rightarrow> string option list \<Rightarrow> string \<Rightarrow> nat
     \<Rightarrow> string option list \<Rightarrow> error + string option list" where
  "fillPosition reg toDim mappingValue fromIndName i inverted =
     (case (case nth_opt mappingValue i of Some (Some nm) \<Rightarrow> Some nm | _ \<Rightarrow> None) of
        None \<Rightarrow> Inl TypeError
      | Some toSubName \<Rightarrow>
          (case sub reg toSubName of
             Some (Dimension ts) \<Rightarrow> fillFromDimension toDim fromIndName (value ts) inverted
           | Some (Index n p f) \<Rightarrow>
               (case toDim of
                  Some (Dimension td) \<Rightarrow>
                    setMappingValue td inverted (indexOf (value td) n) fromIndName
                | _ \<Rightarrow> Inl TypeError)
           | None \<Rightarrow> Inl TypeError))"

fun fillLoop ::
  "subscript list \<Rightarrow> subscript option \<Rightarrow> string option list \<Rightarrow> string list \<Rightarrow> nat
     \<Rightarrow> string option list \<Rightarrow> error + string option list" where
  "fillLoop reg toDim mappingValue [] i inverted = Inr inverted"
| "fillLoop reg toDim mappingValue (fromIndName # rest) i inverted =
     (case fillPosition reg toDim mappingValue fromIndName i inverted of
        Inl e \<Rightarrow> Inl e
      | Inr inverted' \<Rightarrow> fillLoop reg toDim mappingValue rest (Suc i) inverted')"

definition invertMapping ::
  "subscript list \<Rightarrow> dimension \<Rightarrow> string \<Rightarrow> string option list \<Rightarrow> error + string option list" where
  "invertMapping reg fromDim toDimName mappingValue =
     (if mappingValue = [] then Inr (map Some (value fromDim))
      else fillLoop reg (sub reg toDimName) mappingValue (value fromDim) 0 [])"

text \<open>The loop over the entries of \<open>fromDim.mappings\<close>, each replaced in place.\<close>

fun invertEntries ::
  "subscript list \<Rightarrow> dimension \<Rightarrow> (string \<times> string option list) list
     \<Rightarrow> error + (string \<times> string option list) list" where
  "invertEntries reg fromDim [] = Inr []"
| "invertEntries reg fromDim ((toDimName, mappingValue) # rest) =
     (case invertMapping reg fromDim toDimName mappingValue of
        Inl e \<Rightarrow> Inl e
      | Inr inverted \<Rightarrow>
          (case invertEntries reg fromDim rest of
             Inl e \<Rightarrow> Inl e
           | Inr rest' \<Rightarrow> Inr ((toDimName, inverted) # rest')))"

text \<open>The loop over the dimensions of the registry; indices are passed over.\<close>

fun invertLoop :: "subscript list \<Rightarrow> subscript list \<Rightarrow> error + subscript list" where
  "invertLoop reg [] = Inr []"
| "invertLoop reg (Index n p f # rest) =
     (case invertLoop reg rest of Inl e \<Rightarrow> Inl e | Inr rest' \<Rightarrow> Inr (Index n p f # rest'))"
| "invertLoop reg (Dimension fromDim # rest) =
     (case invertEntries reg fromDim (mappings fromDim) of
        Inl e \<Rightarrow> Inl e
      | Inr ms \<Rightarrow>
          (case invertLoop reg rest of
             Inl e \<Rightarrow> Inl e
           | Inr rest' \<Rightarrow> Inr (Dimension (fromDim\<lparr>mappings := ms\<rparr>) # rest')))"

definition invertMappings :: "subscript list \<Rightarrow> error + subscript list" where
  "invertMappings reg = invertLoop reg reg"

text \<open>
  The map-to indices that the entry at a position of the mapping value names: the indices of
  the dimension when it names a dimension, the index itself when it names an index.
\<close>

definition mapToIndices :: "subscript list \<Rightarrow> string option list \<Rightarrow> nat \<Rightarrow> string list" where
  "mapToIndices reg mappingValue i =
     (case nth_opt mappingValue i of
        Some (Some nm) \<Rightarrow>
          (case sub reg nm of
             Some (Dimension ts) \<Rightarrow> value ts
           | Some (Index n p f) \<Rightarrow> [n]
           | None \<Rightarrow> [])
      | _ \<Rightarrow> [])"

text \<open>The element at a position of a JavaScript array, \<open>None\<close> for a hole or beyond the end.\<close>

definition elementAt :: "'a option list \<Rightarrow> nat \<Rightarrow> 'a option" where
  "elementAt a k = (if k < length a then a ! k else None)"

text \<open>
  The index at position \<open>i\<close> of \<open>fromDim\<close> maps to the index at position \<open>k\<close> of the
  map-to dimension: the entry at position \<open>i\<close> of the mapping value names a map-to index that
  stands (first) at position \<open>k\<close> of the value of the map-to dimension.
\<close>

definition mapsTo :: "subscript list \<Rightarrow> string \<Rightarrow> string option list \<Rightarrow> nat \<Rightarrow> nat \<Rightarrow> bool" where
  "mapsTo reg toDimName mappingValue i k =
     (\<exists>td t. sub reg toDimName = Some (Dimension td) \<and>
        t \<in> set (mapToIndices reg mappingValue i) \<and> indexOf (value td) t = Some k)"

text \<open>
  A mapping entry resolves when its value is empty, or when the map-to name is a dimension
  and, at every position of \<open>fromDim\<close>, the mapping value names a known subscript whose
  map-to indices all stand in the value of the map-to dimension, at positions below its size.
\<close>

definition entryResolves ::
  "subscript list \<Rightarrow> dimension \<Rightarrow> string \<times> string option list \<Rightarrow> bool" where
  "entryResolves reg fromDim entry =
     (case entry of (toDimName, mappingValue) \<Rightarrow>
        if mappingValue = [] then True
        else (case sub reg toDimName of
                Some (Dimension td) \<Rightarrow>
                  list_all
                    (\<lambda>i. (case nth_opt mappingValue i of
                            Some (Some nm) \<Rightarrow> sub reg nm \<noteq> None
                          | _ \<Rightarrow> False) \<and>
                         list_all
                           (\<lambda>t. case indexOf (value td) t of
                                  Some k \<Rightarrow> k < dsize td
                                | None \<Rightarrow> False)
                           (mapToIndices reg mappingValue i))
                    [0 ..< length (value fromDim)]
              | _ \<Rightarrow> False))"

definition registryResolves :: "subscript list \<Rightarrow> bool" where
  "registryResolves reg =
     list_all (\<lambda>s. case s of
                     Dimension d \<Rightarrow> list_all (entryResolves reg d) (mappings d)
                   | Index n p f \<Rightarrow> True) reg"

section \<open>Reading the spec file (\<open>sde-generate.js\<close>)\<close>

datatype json =
    JNull
  | JBool bool
  | JNumber int
  | JString string
  | JArray "json list"
  | JObject "(string \<times> json) list"

text \<open>The outcome of a call that may throw.\<close>

datatype 'a outcome = Threw | Returned 'a

text \<open>
  \<open>parseJsonFile\<close>, given what \<open>B.read\<close> and \<open>JSON.parse\<close> do: the result starts as the empty
  object, both calls stand inside one \<open>try\<close>, and the \<open>catch\<close> block is empty.
\<close>

definition parseJsonFile ::
  "(string \<Rightarrow> string outcome) \<Rightarrow> (string \<Rightarrow> json outcome) \<Rightarrow> string \<Rightarrow> json" where
  "parseJsonFile B_read JSON_parse filename =
     (case B_read filename of
        Threw \<Rightarrow> JObject []
      | Returned text \<Rightarrow>
          (case JSON_parse text of
             Threw \<Rightarrow> JObject []
           | Returned result \<Rightarrow> result))"

text \<open>
  The reading of the tie-break that the proofs compare with: among the dimensions that
  contain the index, those of greatest size are ranked by descending name and the first of
  them gives the family.
\<close>

definition familyByDescendingName :: "dimension list \<Rightarrow> string \<Rightarrow> string" where
  "familyByDescendingName allDims ix =
     (let candidates = filter (\<lambda>d. ix \<in> set (value d)) allDims;
          greatest = filter (\<lambda>d. list_all (\<lambda>e. dsize e \<le> dsize d) candidates) candidates
      in hd (rev (sort (map name greatest))))"

subsection \<open>Example tables\<close>

text \<open>A record with every field empty, from which the examples below are built.\<close>

definition blankVar :: variable where
  "blankVar = \<lparr>modelLHS = [], modelFormula = [], varName = [], subscripts = [], refId = [],
     varType = [], hasInitValue = False, references = [], initReferences = [],
     separationDims = []\<rparr>"

definition exampleVar ::
  "string \<Rightarrow> string list \<Rightarrow> string \<Rightarrow> string \<Rightarrow> bool \<Rightarrow> string list \<Rightarrow> string list \<Rightarrow> variable" where
  "exampleVar nm subs rid ty ini refs irefs =
     blankVar\<lparr>varName := nm, subscripts := subs, refId := rid, varType := ty,
       hasInitValue := ini, references := refs, initReferences := irefs\<rparr>"

definition exampleDim :: "string \<Rightarrow> string list \<Rightarrow> string \<Rightarrow> dimension" where
  "exampleDim nm val fam =
     \<lparr>name = nm, value = val, dsize = length val, family = fam, mappings = []\<rparr>"

text \<open>
  A registry with the dimension \<open>_r\<close>, two of its subdimensions and its three indices, and a
  table in the manner of scenarios 3 and 4 of the specification: a non-apply-to-all array
  \<open>_a\<close> defined index by index, an apply-to-all array \<open>_b\<close>, an array \<open>_d\<close> defined on two
  subdimensions, a level \<open>_e\<close> and the placeholder \<open>_time\<close>. \<open>exampleRead\<close> is the table as
  the variable reader leaves it, \<open>exampleTable\<close> the table once the equations have been read.
\<close>

definition exampleReg :: "subscript list" where
  "exampleReg =
     [Dimension (exampleDim ''_r'' [''_r1'', ''_r2'', ''_r3''] ''_r''),
      Dimension (exampleDim ''_suba'' [''_r1'', ''_r2''] ''_r''),
      Dimension (exampleDim ''_subb'' [''_r3''] ''_r''),
      Index ''_r1'' 0 ''_r'', Index ''_r2'' 1 ''_r'', Index ''_r3'' 2 ''_r'']"

definition exampleRead :: "variable list" where
  "exampleRead =
     [exampleVar ''_a'' [''_r1''] [] [] False [] [],
      exampleVar ''_a'' [''_r2''] [] [] False [] [],
      exampleVar ''_a'' [''_r3''] [] [] False [] [],
      exampleVar ''_b'' [''_r''] [] [] False [] [],
      exampleVar ''_d'' [''_suba''] [] [] False [] [],
      exampleVar ''_d'' [''_subb''] [] [] False [] [],
      exampleVar ''_e'' [] [] [] False [] [],
      exampleVar ''_time'' [] [] [] False [] []]"

definition exampleTable :: "variable list" where
  "exampleTable =
     [exampleVar ''_a'' [''_r1''] ''_a[_r1]'' ''const'' False [] [],
      exampleVar ''_a'' [''_r2''] ''_a[_r2]'' ''const'' False [] [],
      exampleVar ''_a'' [''_r3''] ''_a[_r3]'' ''aux'' False [''_a[_r1]'', ''_a[_r2]''] [],
      exampleVar ''_b'' [''_r''] ''_b'' ''aux'' False [''_a[_r3]'', ''_a[_r1]''] [],
      exampleVar ''_d'' [''_suba''] ''_d[_suba]'' ''aux'' False [''_b''] [],
      exampleVar ''_d'' [''_subb''] ''_d[_subb]'' ''aux'' False [''_b''] [],
      exampleVar ''_e'' [] ''_e'' ''level'' True [''_d[_r3]''] [''_a[_r1]'', ''_b''],
      exampleVar ''_time'' [] ''_time'' [] False [] []]"

text \<open>The table \<open>exampleTable\<close> as constant-reference pruning leaves it.\<close>

definition examplePruned :: "variable list" where
  "examplePruned =
     [exampleVar ''_a'' [''_r1''] ''_a[_r1]'' ''const'' False [] [],
      exampleVar ''_a'' [''_r2''] ''_a[_r2]'' ''const'' False [] [],
      exampleVar ''_a'' [''_r3''] ''_a[_r3]'' ''aux'' False [] [],
      exampleVar ''_b'' [''_r''] ''_b'' ''aux'' False [''_a[_r3]''] [],
      exampleVar ''_d'' [''_suba''] ''_d[_suba]'' ''aux'' False [''_b''] [],
      exampleVar ''_d'' [''_subb''] ''_d[_subb]'' ''aux'' False [''_b''] [],
      exampleVar ''_e'' [] ''_e'' ''level'' True [''_d[_r3]''] [''_b''],
      exampleVar ''_time'' [] ''_time'' [] False [] []]"

text \<open>
  Dimensions as they are declared: \<open>_r\<close> and \<open>_zz\<close> have the same three indices, \<open>_suba\<close> and
  \<open>_subb\<close> are subdimensions, and every family is provisionally the dimension's own name.
\<close>

definition exampleDims :: "dimension list" where
  "exampleDims =
     [exampleDim ''_suba'' [''_r1'', ''_r2''] ''_suba'',
      exampleDim ''_zz'' [''_r1'', ''_r2'', ''_r3''] ''_zz'',
      exampleDim ''_r'' [''_r1'', ''_r2'', ''_r3''] ''_r'',
      exampleDim ''_subb'' [''_r3''] ''_subb'']"

text \<open>
  A registry with a dimension \<open>_f\<close> mapped to the dimensions \<open>_t\<close> and \<open>_u\<close>, the two mapping
  values being the parameters; \<open>_tsub\<close> is a subdimension of \<open>_t\<close>.
\<close>

definition exampleFromDim :: "string option list \<Rightarrow> string option list \<Rightarrow> dimension" where
  "exampleFromDim toT toU =
     (exampleDim ''_f'' [''_f1'', ''_f2'', ''_f3''] ''_f'')\<lparr>mappings := [(''_t'', toT), (''_u'', toU)]\<rparr>"

definition exampleMapReg :: "string option list \<Rightarrow> string option list \<Rightarrow> subscript list" where
  "exampleMapReg toT toU =
     [Dimension (exampleFromDim toT toU),
      Dimension (exampleDim ''_t'' [''_t1'', ''_t2'', ''_t3'', ''_t4''] ''_t''),
      Dimension (exampleDim ''_tsub'' [''_t3'', ''_t4''] ''_t''),
      Dimension (exampleDim ''_u'' [''_u1'', ''_u2'', ''_u3''] ''_u''),
      Index ''_f1'' 0 ''_f'', Index ''_f2'' 1 ''_f'', Index ''_f3'' 2 ''_f'',
      Index ''_t1'' 0 ''_t'', Index ''_t2'' 1 ''_t'', Index ''_t3'' 2 ''_t'',
      Index ''_t4'' 3 ''_t'']"

text \<open>Two dimensions declared in terms of each other, and a dimension declared through two levels.\<close>

definition exampleCyclicDims :: "dimension list" where
  "exampleCyclicDims =
     [exampleDim ''_a'' [''_b''] ''_a'', exampleDim ''_b'' [''_a''] ''_b'']"

definition exampleNestedDims :: "dimension list" where
  "exampleNestedDims =
     [exampleDim ''_all'' [''_north'', ''_s1'', ''_south''] ''_all'',
      exampleDim ''_north'' [''_n1'', ''_n2''] ''_north'',
      exampleDim ''_south'' [''_s1'', ''_deep''] ''_south'',
      exampleDim ''_deep'' [''_s2'', ''_s3''] ''_deep'']"

text \<open>The two examples as the expansion loop leaves them.\<close>

definition exampleCyclicExpanded :: "dimension list" where
  "exampleCyclicExpanded =
     [exampleDim ''_a'' [''_a''] ''_a'', exampleDim ''_b'' [''_a''] ''_b'']"

definition exampleNestedExpanded :: "dimension list" where
  "exampleNestedExpanded =
     [exampleDim ''_all'' [''_n1'', ''_n2'', ''_s1'', ''_s1'', ''_s2'', ''_s3''] ''_all'',
      exampleDim ''_north'' [''_n1'', ''_n2''] ''_north'',
      exampleDim ''_south'' [''_s1'', ''_s2'', ''_s3''] ''_south'',
      exampleDim ''_deep'' [''_s2'', ''_s3''] ''_deep'']"

text \<open>
  A table for the evaluation orders: the auxiliary \<open>_x\<close> refers to \<open>_y\<close>, the auxiliaries \<open>_z\<close>
  and \<open>_w\<close> stand alone, the level \<open>_p\<close> refers to the level \<open>_q\<close> and its initial value to
  \<open>_y\<close>.
\<close>

definition exampleSortTable :: "variable list" where
  "exampleSortTable =
     [exampleVar ''_x'' [] ''_x'' ''aux'' False [''_y''] [],
      exampleVar ''_y'' [] ''_y'' ''aux'' False [] [],
      exampleVar ''_z'' [] ''_z'' ''aux'' False [] [],
      exampleVar ''_w'' [] ''_w'' ''aux'' False [] [],
      exampleVar ''_p'' [] ''_p'' ''level'' True [''_q''] [''_y''],
      exampleVar ''_q'' [] ''_q'' ''level'' True [] [],
      exampleVar ''_time'' [] ''_time'' [] False [] []]"

text \<open>
  A table with a single record of the name \<open>_y\<close>, which has a subscript, and a table with two
  records of the name \<open>_h\<close> on a dimension and one of its subdimensions, and a record that
  refers to an element of \<open>_h\<close>.
\<close>

definition exampleSingle :: "variable list" where
  "exampleSingle = [exampleVar ''_y'' [''_r1''] [] [] False [] []]"

definition exampleOverlap :: "variable list" where
  "exampleOverlap =
     [exampleVar ''_g'' [] ''_g'' ''aux'' False [''_h[_r1]''] [],
      exampleVar ''_h'' [''_suba''] ''_h[_suba]'' ''aux'' False [] [],
      exampleVar ''_h'' [''_r''] ''_h[_r]'' ''aux'' False [] []]"


subsection \<open>Notions used in the proofs\<close>

text \<open>
  The equation reader leaves the name, the subscripts and the reference identifier of a record
  as they are. \<open>idKey\<close> is what identifies a record.
\<close>

definition keepsIdentity :: "(variable list \<Rightarrow> variable \<Rightarrow> variable) \<Rightarrow> bool" where
  "keepsIdentity readEquation =
     (\<forall>tbl u. varName (readEquation tbl u) = varName u \<and>
              subscripts (readEquation tbl u) = subscripts u \<and>
              refId (readEquation tbl u) = refId u)"

definition idKey :: "variable \<Rightarrow> string \<times> string list \<times> string" where
  "idKey v = (varName v, subscripts v, refId v)"

text \<open>
  Two records agree on the fields that a lookup by reference identifier reads, and \<open>pruned\<close>
  relates a record to itself with its references filtered against a table.
\<close>

definition leqDim :: "dimension \<Rightarrow> dimension \<Rightarrow> bool" where
  "leqDim a b = (dimComparator a b \<le> 0)"

definition hitsAt ::
  "subscript list \<Rightarrow> subscript option \<Rightarrow> string option list \<Rightarrow> nat \<Rightarrow> nat \<Rightarrow> bool" where
  "hitsAt reg toDim mv i k =
     (\<exists>td t. toDim = Some (Dimension td) \<and> t \<in> set (mapToIndices reg mv i) \<and>
                 indexOf (value td) t = Some k)"

text \<open>
  For the termination of the expansion: a ranking of the names that decreases along the edges
  of the dimension-name graph, and the height of a value, which is zero exactly when the
  value holds no name of \<open>N\<close>.
\<close>

definition rankOK :: "(string \<Rightarrow> nat) \<Rightarrow> dimension list \<Rightarrow> bool" where
  "rankOK rk T =
     (\<forall>d \<in> set T. \<forall>s \<in> set (value d). s \<in> name ` set T \<longrightarrow> rk s < rk (name d))"

definition height :: "(string \<Rightarrow> nat) \<Rightarrow> string set \<Rightarrow> string list \<Rightarrow> nat" where
  "height rk N xs = Max (insert 0 ((\<lambda>s. Suc (rk s)) ` (set xs \<inter> N)))"

definition totalHeight :: "(string \<Rightarrow> nat) \<Rightarrow> dimension list \<Rightarrow> nat" where
  "totalHeight rk T = sum_list (map (\<lambda>d. height rk (name ` set T) (value d)) T)"

definition depPair :: "variable \<Rightarrow> variable \<Rightarrow> string \<times> string" where
  "depPair v r =
     (if varType v = ''level'' \<and> varType r = ''level'' then (refId r, refId v)
      else (refId v, refId r))"



text \<open>
  The number of reference identifiers of the table without an entry in the map, and the
  references of the table being exact: an identifier that resolves to a record is the
  identifier of the record.
\<close>

definition unmapped :: "variable list \<Rightarrow> (string \<times> string list) list \<Rightarrow> nat" where
  "unmapped vs m = card {k \<in> refId ` set vs. map_of m k = None}"

definition exactRefs :: "subscript list \<Rightarrow> variable list \<Rightarrow> bool" where
  "exactRefs reg vs =
     (\<forall>v \<in> set vs. \<forall>rid \<in> set (initRefIds v). \<forall>r.
        varWithRefId reg vs rid = Inr (Some r) \<longrightarrow> refId r = rid)"


definition sameKey :: "variable \<Rightarrow> variable \<Rightarrow> bool" where
  "sameKey v v' = (refId v = refId v' \<and> varName v = varName v' \<and> varType v = varType v')"

definition pruned :: "subscript list \<Rightarrow> variable list \<Rightarrow> variable \<Rightarrow> variable \<Rightarrow> bool" where
  "pruned reg tbl v v' =
     (sameKey v v' \<and>
      reject (refIsConst reg tbl) (references v) = Inr (references v') \<and>
      reject (refIsConst reg tbl) (initReferences v) = Inr (initReferences v'))"

section \<open>Properties\<close>

lemmas example_defs = exampleReg_def exampleRead_def exampleTable_def examplePruned_def
  exampleVar_def blankVar_def exampleDim_def

lemmas lookup_defs = varWithRefId_def splitRefId_def normalizeSubscripts_def sub_def
  familyOf_def isWordChar_def refIdsWithName_def varsWithName_def posMatches_def isIndex_def
  isDimension_def nth_opt_def

subsection \<open>Reference identifiers\<close>

lemma set_uniq: "set (uniq xs) = set xs"
proof (induction xs rule: uniq.induct)
  case 1 show ?case by simp
next
  case (2 x xs)
  then show ?case by auto
qed

lemma set_varNames: "set (varNames variables) = varName ` set variables"
  by (simp add: varNames_def set_uniq)

lemma dom_foldl_register:
  "dom (foldl (\<lambda>reg nm. let vars = varsWithName variables nm
                         in if 1 < length vars then reg(nm \<mapsto> expansionDims vars) else reg) r nms)
   = dom r \<union> {nm \<in> set nms. 1 < length (varsWithName variables nm)}"
  by (induction nms arbitrary: r) (auto simp: Let_def split: if_splits)

lemma dom_findNonAtoAVars:
  "dom (findNonAtoAVars variables r) =
     dom r \<union> {nm. 1 < length (varsWithName variables nm)}"
proof -
  have "1 < length (varsWithName variables nm) \<Longrightarrow> nm \<in> varName ` set variables" for nm
  proof -
    assume "1 < length (varsWithName variables nm)"
    then have "varsWithName variables nm \<noteq> []" by auto
    then obtain v where "v \<in> set (varsWithName variables nm)" by (cases "varsWithName variables nm") auto
    then show ?thesis by (auto simp: varsWithName_def)
  qed
  then show ?thesis
    unfolding findNonAtoAVars_def dom_foldl_register set_varNames by auto
qed

lemma readLoop_idKey:
  assumes "keepsIdentity rd"
  shows "map idKey (readLoop rd dn todo) = map idKey (dn @ todo)"
proof (induction todo arbitrary: dn)
  case Nil
  show ?case by simp
next
  case (Cons v todo)
  have "idKey (rd (dn @ v # todo) v) = idKey v"
    using assms by (simp add: keepsIdentity_def idKey_def)
  with Cons[of "dn @ [rd (dn @ v # todo) v]"] show ?case by simp
qed

lemma removeLoop_idKey:
  "removeLoop reg dn todo = Inr res \<Longrightarrow> map idKey res = map idKey (dn @ todo)"
proof (induction todo arbitrary: dn res)
  case Nil
  then show ?case by simp
next
  case (Cons v todo)
  from Cons.prems obtain refs where refs: "reject (refIsConst reg (dn @ v # todo)) (references v) = Inr refs"
    by (auto split: sum.splits)
  let ?v1 = "v\<lparr>references := refs\<rparr>"
  from Cons.prems refs obtain irefs where
    irefs: "reject (refIsConst reg (dn @ ?v1 # todo)) (initReferences ?v1) = Inr irefs"
    by (simp add: Let_def split: sum.splits)
  let ?v2 = "?v1\<lparr>initReferences := irefs\<rparr>"
  have rest: "removeLoop reg (dn @ [?v2]) todo = Inr res"
    using Cons.prems refs irefs by (simp add: Let_def)
  have "idKey ?v2 = idKey v" by (simp add: idKey_def)
  with Cons.IH[OF rest] show ?case by simp
qed

lemma setRefIds_idKey:
  "map idKey (setRefIds r vs) = map (\<lambda>u. (varName u, subscripts u, refIdForVar r u)) vs"
  by (simp add: setRefIds_def idKey_def refIdForVar_def hasSubscripts_def)

lemma analyze_idKey:
  assumes "keepsIdentity rd" "analyze rd reg (variables, nonAtoANames) = Inr (table, registry)"
  shows "registry = findNonAtoAVars variables nonAtoANames \<and>
         map idKey table = map (\<lambda>u. (varName u, subscripts u, refIdForVar registry u)) variables"
proof -
  let ?r = "findNonAtoAVars variables nonAtoANames"
  let ?t2 = "readEquations rd (setRefIds ?r variables)"
  from assms(2) have r: "registry = ?r" and rm: "removeConstRefs reg ?t2 = Inr table"
    by (auto simp: analyze_def Let_def split: sum.splits)
  from rm have "map idKey table = map idKey ?t2"
    using removeLoop_idKey[of reg "[]" ?t2 table] by (simp add: removeConstRefs_def)
  also have "\<dots> = map idKey (setRefIds ?r variables)"
    using readLoop_idKey[OF assms(1), of "[]"] by (simp add: readEquations_def)
  finally show ?thesis using r by (simp add: setRefIds_idKey)
qed

lemma addEquation_idKey:
  assumes "keepsIdentity rd"
  shows "map idKey (foldl (addEquation rd r) table added) =
           map idKey table @ map (\<lambda>u. (varName u, subscripts u, refIdForVar r u)) added"
proof (induction added arbitrary: table)
  case Nil
  show ?case by simp
next
  case (Cons v added)
  let ?v1 = "v\<lparr>refId := refIdForVar r v\<rparr>"
  have "idKey (rd (table @ [?v1]) ?v1) = (varName v, subscripts v, refIdForVar r v)"
    using assms by (simp add: keepsIdentity_def idKey_def)
  then show ?case
    using Cons[of "addEquation rd r table v"] by (simp add: addEquation_def Let_def)
qed

text \<open>
  Claim C1, as the code has it. Reference identifiers are assigned by \<open>setRefIds\<close> in the
  analysis, after \<open>findNonAtoAVars\<close> has added to the registry of non-apply-to-all names, and
  by \<open>addEquation\<close> for a record added after the analysis, from the registry as it is then,
  which is here the registry as the analysis left it; the equation reader and the pruning
  keep the name, the subscripts and the identifier of a record. For every record \<open>v\<close> of the table after the analysis and after the
  equations added to it: if \<open>v\<close> has subscripts and its name is in the registry, because the
  name was in it before the analysis (\<open>addNonAtoAVar\<close> enters it) or because more than one
  record of the table had the name when the analysis started, the reference identifier of
  \<open>v\<close> is the name followed by the subscripts of the record, joined by commas, in brackets;
  otherwise it is the bare name. The name and the subscripts of \<open>v\<close> are those of a record
  as it was read, and the subscripts stand in the identifier as the record stores them: they
  are in normal order when those of the records read are.
\<close>

theorem refId_after_analysis:
  assumes rd: "keepsIdentity readEquation"
      and an: "analyze readEquation reg (variables, nonAtoANames) = Inr (table, registry)"
      and v: "v \<in> set (foldl (addEquation readEquation registry) table added)"
  shows "refId v =
           (if subscripts v \<noteq> [] \<and>
               (nonAtoANames (varName v) \<noteq> None \<or>
                1 < length (varsWithName variables (varName v)))
            then varName v @ ''['' @ join '','' (subscripts v) @ '']''
            else varName v) \<and>
         (\<exists>u \<in> set (variables @ added). varName u = varName v \<and> subscripts u = subscripts v) \<and>
         (list_all (\<lambda>u. normalizeSubscripts reg (subscripts u) = Inr (subscripts u))
            (variables @ added) \<longrightarrow>
          normalizeSubscripts reg (subscripts v) = Inr (subscripts v))"
proof -
  note a = analyze_idKey[OF rd an]
  let ?f = "\<lambda>u. (varName u, subscripts u, refIdForVar registry u)"
  have "map idKey (foldl (addEquation readEquation registry) table added) = map ?f (variables @ added)"
    using addEquation_idKey[OF rd, of registry table added] a by simp
  moreover from v have "idKey v \<in> set (map idKey (foldl (addEquation readEquation registry) table added))"
    by simp
  ultimately have "idKey v \<in> ?f ` set (variables @ added)" by auto
  then obtain u where u: "u \<in> set (variables @ added)" and nm: "varName v = varName u"
    and sb: "subscripts v = subscripts u" and rf: "refId v = refIdForVar registry u"
    by (auto simp: idKey_def)
  have "isNonAtoAName registry (varName u) \<longleftrightarrow> varName u \<in> dom registry"
    by (auto simp: isNonAtoAName_def)
  also have "\<dots> \<longleftrightarrow> nonAtoANames (varName u) \<noteq> None \<or> 1 < length (varsWithName variables (varName u))"
    using a unfolding dom_findNonAtoAVars[symmetric, of nonAtoANames variables]
    by (auto simp: dom_findNonAtoAVars)
  finally have reg: "isNonAtoAName registry (varName u) \<longleftrightarrow>
      nonAtoANames (varName u) \<noteq> None \<or> 1 < length (varsWithName variables (varName u))" .
  have 1: "refId v =
           (if subscripts v \<noteq> [] \<and>
               (nonAtoANames (varName v) \<noteq> None \<or>
                1 < length (varsWithName variables (varName v)))
            then varName v @ ''['' @ join '','' (subscripts v) @ '']''
            else varName v)"
    unfolding rf nm sb using reg by (simp add: refIdForVar_def hasSubscripts_def)
  have 2: "\<exists>u \<in> set (variables @ added). varName u = varName v \<and> subscripts u = subscripts v"
    using u nm sb by (intro bexI[of _ u]) simp_all
  have 3: "list_all (\<lambda>u. normalizeSubscripts reg (subscripts u) = Inr (subscripts u))
            (variables @ added) \<longrightarrow>
          normalizeSubscripts reg (subscripts v) = Inr (subscripts v)"
    using u sb unfolding list_all_iff by auto
  from 1 2 3 show ?thesis by (intro conjI)
qed

lemmas analyze_defs = analyze_def readEquations_def removeConstRefs_def setRefIds_def
  findNonAtoAVars_def varNames_def varsWithName_def refIdForVar_def hasSubscripts_def
  isNonAtoAName_def addNonAtoAVar_def Let_def

lemma keepsIdentity_id: "keepsIdentity (\<lambda>tbl u. u)"
  by (simp add: keepsIdentity_def)

lemma example_analyze:
  "analyze (\<lambda>tbl u. u) exampleReg (exampleRead, Map.empty) =
     Inr ([exampleVar ''_a'' [''_r1''] ''_a[_r1]'' [] False [] [],
           exampleVar ''_a'' [''_r2''] ''_a[_r2]'' [] False [] [],
           exampleVar ''_a'' [''_r3''] ''_a[_r3]'' [] False [] [],
           exampleVar ''_b'' [''_r''] ''_b'' [] False [] [],
           exampleVar ''_d'' [''_suba''] ''_d[_suba]'' [] False [] [],
           exampleVar ''_d'' [''_subb''] ''_d[_subb]'' [] False [] [],
           exampleVar ''_e'' [] ''_e'' [] False [] [],
           exampleVar ''_time'' [] ''_time'' [] False [] []],
          findNonAtoAVars exampleRead Map.empty)"
  by (simp add: analyze_defs example_defs)

theorem refId_after_analysis_witness:
  "keepsIdentity (\<lambda>tbl u. u) \<and>
   analyze (\<lambda>tbl u. u) exampleReg (exampleRead, Map.empty) =
     Inr ([exampleVar ''_a'' [''_r1''] ''_a[_r1]'' [] False [] [],
           exampleVar ''_a'' [''_r2''] ''_a[_r2]'' [] False [] [],
           exampleVar ''_a'' [''_r3''] ''_a[_r3]'' [] False [] [],
           exampleVar ''_b'' [''_r''] ''_b'' [] False [] [],
           exampleVar ''_d'' [''_suba''] ''_d[_suba]'' [] False [] [],
           exampleVar ''_d'' [''_subb''] ''_d[_subb]'' [] False [] [],
           exampleVar ''_e'' [] ''_e'' [] False [] [],
           exampleVar ''_time'' [] ''_time'' [] False [] []],
          findNonAtoAVars exampleRead Map.empty) \<and>
   exampleVar ''_a'' [''_r1''] ''_a[_r1]'' [] False [] []
     \<in> set (foldl (addEquation (\<lambda>tbl u. u) (findNonAtoAVars exampleRead Map.empty))
              [exampleVar ''_a'' [''_r1''] ''_a[_r1]'' [] False [] [],
               exampleVar ''_a'' [''_r2''] ''_a[_r2]'' [] False [] [],
               exampleVar ''_a'' [''_r3''] ''_a[_r3]'' [] False [] [],
               exampleVar ''_b'' [''_r''] ''_b'' [] False [] [],
               exampleVar ''_d'' [''_suba''] ''_d[_suba]'' [] False [] [],
               exampleVar ''_d'' [''_subb''] ''_d[_subb]'' [] False [] [],
               exampleVar ''_e'' [] ''_e'' [] False [] [],
               exampleVar ''_time'' [] ''_time'' [] False [] []]
              [exampleVar ''_k'' [] [] [] False [] []]) \<and>
   length (varsWithName exampleRead ''_a'') = 3 \<and>
   refId (exampleVar ''_a'' [''_r1''] ''_a[_r1]'' [] False [] []) =
     ''_a'' @ ''['' @ join '','' [''_r1''] @ '']'' \<and>
   list_all (\<lambda>u. normalizeSubscripts exampleReg (subscripts u) = Inr (subscripts u))
     (exampleRead @ [exampleVar ''_k'' [] [] [] False [] []]) \<and>
   normalizeSubscripts exampleReg (subscripts (exampleVar ''_a'' [''_r1''] ''_a[_r1]'' [] False [] []))
     = Inr (subscripts (exampleVar ''_a'' [''_r1''] ''_a[_r1]'' [] False [] []))"
proof -
  let ?a = "exampleVar ''_a'' [''_r1''] ''_a[_r1]'' [] False [] []"
  let ?t = "[?a,
           exampleVar ''_a'' [''_r2''] ''_a[_r2]'' [] False [] [],
           exampleVar ''_a'' [''_r3''] ''_a[_r3]'' [] False [] [],
           exampleVar ''_b'' [''_r''] ''_b'' [] False [] [],
           exampleVar ''_d'' [''_suba''] ''_d[_suba]'' [] False [] [],
           exampleVar ''_d'' [''_subb''] ''_d[_subb]'' [] False [] [],
           exampleVar ''_e'' [] ''_e'' [] False [] [],
           exampleVar ''_time'' [] ''_time'' [] False [] []]"
  let ?k = "exampleVar ''_k'' [] [] [] False [] []"
  note h1 = keepsIdentity_id
  note h2 = example_analyze
  have h3: "?a \<in> set (foldl (addEquation (\<lambda>tbl u. u) (findNonAtoAVars exampleRead Map.empty)) ?t [?k])"
    by (simp add: addEquation_def Let_def)
  have l: "length (varsWithName exampleRead ''_a'') = 3"
    by (simp add: varsWithName_def example_defs)
  have n: "list_all (\<lambda>u. normalizeSubscripts exampleReg (subscripts u) = Inr (subscripts u))
     (exampleRead @ [?k])"
    by (simp add: example_defs normalizeSubscripts_def sub_def familyOf_def)
  note t = refId_after_analysis[OF h1 h2 h3]
  have "refId ?a =
           (if subscripts ?a \<noteq> [] \<and>
               ((Map.empty :: string \<rightharpoonup> bool list) (varName ?a) \<noteq> None \<or>
                1 < length (varsWithName exampleRead (varName ?a)))
            then varName ?a @ ''['' @ join '','' (subscripts ?a) @ '']''
            else varName ?a)"
    using t by (rule conjunct1)
  then have c: "refId ?a = ''_a'' @ ''['' @ join '','' [''_r1''] @ '']''"
    using l by (simp add: exampleVar_def blankVar_def)
  have "list_all (\<lambda>u. normalizeSubscripts exampleReg (subscripts u) = Inr (subscripts u))
          (exampleRead @ [?k]) \<longrightarrow>
        normalizeSubscripts exampleReg (subscripts ?a) = Inr (subscripts ?a)"
    using t by (elim conjE)
  then have o: "normalizeSubscripts exampleReg (subscripts ?a) = Inr (subscripts ?a)"
    using n by (rule mp)
  from h1 h2 h3 l c n o show ?thesis by (intro conjI)
qed

text \<open>
  A name registered through \<open>addNonAtoAVar\<close> that a single record has: the reference
  identifier of the record is subscripted, where the claim has the bare name.
\<close>

theorem registered_name_counterexample:
  "analyze (\<lambda>tbl u. u) exampleReg (exampleSingle, addNonAtoAVar ''_y'' [True] Map.empty) =
     Inr ([exampleVar ''_y'' [''_r1''] ''_y[_r1]'' [] False [] []],
          findNonAtoAVars exampleSingle (addNonAtoAVar ''_y'' [True] Map.empty)) \<and>
   length (varsWithName [exampleVar ''_y'' [''_r1''] ''_y[_r1]'' [] False [] []] ''_y'') = 1 \<and>
   refIdAsClaimed [exampleVar ''_y'' [''_r1''] ''_y[_r1]'' [] False [] []]
     (exampleVar ''_y'' [''_r1''] ''_y[_r1]'' [] False [] []) = ''_y'' \<and>
   refId (exampleVar ''_y'' [''_r1''] ''_y[_r1]'' [] False [] []) = ''_y[_r1]'' \<and>
   refId (exampleVar ''_y'' [''_r1''] ''_y[_r1]'' [] False [] []) \<noteq>
     refIdAsClaimed [exampleVar ''_y'' [''_r1''] ''_y[_r1]'' [] False [] []]
       (exampleVar ''_y'' [''_r1''] ''_y[_r1]'' [] False [] [])"
  by (simp add: analyze_defs exampleSingle_def refIdAsClaimed_def example_defs)

subsection \<open>Splitting a reference identifier that \<open>refIdForVar\<close> built\<close>

lemma takeWhile_word_append:
  assumes "\<forall>c\<in>set w. isWordChar c" "rest = [] \<or> \<not> isWordChar (hd rest)"
  shows "takeWhile isWordChar (w @ rest) = w" "dropWhile isWordChar (w @ rest) = rest"
  using assms by (cases rest; simp add: takeWhile_append2 dropWhile_append2 )+

lemma matchAll_word:
  assumes "w \<noteq> []" "\<forall>c\<in>set w. isWordChar c" "rest = [] \<or> \<not> isWordChar (hd rest)"
  shows "matchAll (w @ rest) = w # matchAll rest"
proof -
  from assms(1) obtain c cs where w: "w = c # cs" by (cases w) auto
  have c: "isWordChar c" and cs: "\<forall>c\<in>set cs. isWordChar c" using assms(2) w by auto
  have "takeWhile isWordChar (cs @ rest) = cs" "dropWhile isWordChar (cs @ rest) = rest"
    using takeWhile_word_append[OF cs assms(3)] by auto
  then show ?thesis using c by (simp add: w)
qed

lemma notword: "\<not> isWordChar CHR ''[''" "\<not> isWordChar CHR '',''" "\<not> isWordChar CHR '']''"
  by (simp_all add: isWordChar_def)

lemma matchAll_join:
  assumes "\<forall>s\<in>set subs. s \<noteq> [] \<and> (\<forall>c\<in>set s. isWordChar c)"
  shows "matchAll (join '','' subs @ '']'') = subs"
  using assms
proof (induction "'',''" subs rule: join.induct)
  case 1
  show ?case by (simp add: notword)
next
  case (2 x)
  then have "matchAll (x @ '']'') = x # matchAll '']''"
    by (intro matchAll_word) (auto simp: notword)
  then show ?case by (simp add: notword)
next
  case (3 x y ys)
  then have "matchAll (x @ ('','' @ join '','' (y # ys) @ '']'')) = x # matchAll ('','' @ join '','' (y # ys) @ '']'')"
    by (intro matchAll_word) (auto simp: notword)
  moreover have "matchAll ('','' @ join '','' (y # ys) @ '']'') = matchAll (join '','' (y # ys) @ '']'')"
    by (simp add: notword)
  ultimately show ?case using 3 by simp
qed

lemma splitLoop_subs:
  "\<forall>s\<in>set ms. s \<noteq> ''['' \<Longrightarrow> splitLoop ms True vn acc = (vn, acc @ ms)"
  by (induction ms arbitrary: acc) auto

lemma word_not_bracket: "s \<noteq> [] \<and> (\<forall>c\<in>set s. isWordChar c) \<Longrightarrow> s \<noteq> ''[''"
  using notword(1) by auto

text \<open>
  Claim C10. Round trip: for a record whose name consists of word characters, whose
  subscript names are non-empty words and whose subscripts are in normal order already
  (normalising them gives them back), splitting the reference identifier that \<open>refIdForVar\<close>
  builds yields the name of the record, with the subscripts of the record when the name is
  non-apply-to-all and with no subscript otherwise.
\<close>

theorem splitRefId_refIdForVar:
  assumes "\<forall>c\<in>set (varName v). isWordChar c"
      and "\<forall>s\<in>set (subscripts v). s \<noteq> [] \<and> (\<forall>c\<in>set s. isWordChar c)"
      and "normalizeSubscripts reg (subscripts v) = Inr (subscripts v)"
  shows "splitRefId reg (refIdForVar nonAtoANames v) =
           Inr (varName v, if isNonAtoAName nonAtoANames (varName v) then subscripts v else [])"
proof (cases "hasSubscripts v \<and> isNonAtoAName nonAtoANames (varName v)")
  case True
  let ?tail = "''['' @ join '','' (subscripts v) @ '']''"
  have tail: "matchAll ?tail = ''['' # subscripts v"
    using matchAll_join[OF assms(2)] by (simp add: notword)
  have nb: "\<forall>s\<in>set (subscripts v). s \<noteq> ''[''"
    using assms(2) word_not_bracket by blast
  have "splitLoop (matchAll (varName v @ ?tail)) False [] [] = (varName v, subscripts v)"
  proof (cases "varName v = []")
    case True
    then show ?thesis using tail splitLoop_subs[OF nb, of "[]" "[]"] by simp
  next
    case False
    have "matchAll (varName v @ ?tail) = varName v # matchAll ?tail"
      using False assms(1) by (intro matchAll_word) (auto simp: notword)
    moreover have "varName v \<noteq> ''[''"
      using False assms(1) word_not_bracket by blast
    ultimately show ?thesis
      using tail splitLoop_subs[OF nb, of "varName v" "[]"] by simp
  qed
  then show ?thesis
    using True assms(3) by (simp add: splitRefId_def refIdForVar_def)
next
  case False
  have norm: "normalizeSubscripts reg [] = Inr []"
    by (simp add: normalizeSubscripts_def)
  have "splitLoop (matchAll (varName v)) False [] [] = (varName v, [])"
  proof (cases "varName v = []")
    case True
    then show ?thesis by simp
  next
    case False
    have "matchAll (varName v @ []) = varName v # matchAll []"
      using False assms(1) by (intro matchAll_word) auto
    moreover have "varName v \<noteq> ''[''"
      using False assms(1) word_not_bracket by blast
    ultimately show ?thesis by simp
  qed
  moreover have "(if isNonAtoAName nonAtoANames (varName v) then subscripts v else []) = []"
    using False by (auto simp: hasSubscripts_def)
  moreover have "refIdForVar nonAtoANames v = varName v"
    using False by (auto simp: refIdForVar_def)
  ultimately show ?thesis
    using norm by (simp add: splitRefId_def)
qed

theorem splitRefId_refIdForVar_witness:
  "list_all isWordChar ''_a'' \<and>
   list_all (\<lambda>s. s \<noteq> [] \<and> list_all isWordChar s) [''_r1''] \<and>
   normalizeSubscripts exampleReg [''_r1''] = Inr [''_r1''] \<and>
   splitRefId exampleReg
     (refIdForVar [''_a'' \<mapsto> [True]] (exampleVar ''_a'' [''_r1''] [] [] False [] []))
     = Inr (''_a'', [''_r1''])"
proof -
  let ?v = "exampleVar ''_a'' [''_r1''] [] [] False [] []"
  have h1: "\<forall>c\<in>set (varName ?v). isWordChar c"
    by (simp add: exampleVar_def blankVar_def isWordChar_def)
  have h2: "\<forall>s\<in>set (subscripts ?v). s \<noteq> [] \<and> (\<forall>c\<in>set s. isWordChar c)"
    by (simp add: exampleVar_def blankVar_def isWordChar_def)
  have h3: "normalizeSubscripts exampleReg (subscripts ?v) = Inr (subscripts ?v)"
    by (simp add: example_defs normalizeSubscripts_def sub_def)
  show ?thesis
    using splitRefId_refIdForVar[OF h1 h2 h3, of "[''_a'' \<mapsto> [True]]"] h1 h2 h3
    by (simp add: exampleVar_def blankVar_def isNonAtoAName_def list_all_iff)
qed



subsection \<open>Constant-reference pruning\<close>

lemma find_rel:
  assumes "list_all2 R xs ys" "\<And>x y. R x y \<Longrightarrow> P x = Q y"
  shows "rel_option R (find P xs) (find Q ys)"
  using assms(1)
proof (induction rule: list_all2_induct)
  case Nil
  show ?case by simp
next
  case (Cons x xs y ys)
  then show ?case using assms(2)[of x y] by auto
qed

lemma refIdsWithName_sameKey:
  assumes "list_all2 sameKey vs vs'"
  shows "refIdsWithName vs nm = refIdsWithName vs' nm"
  using assms
  by (induction rule: list_all2_induct) (auto simp: refIdsWithName_def varsWithName_def sameKey_def)

lemma findMatch_sameKey:
  assumes "list_all2 sameKey vs vs'"
  shows "rel_sum (=) (rel_option sameKey) (findMatch reg vs rs rids) (findMatch reg vs' rs rids)"
proof (induction rids)
  case Nil
  show ?case by simp
next
  case (Cons r rids)
  have "rel_option sameKey (find (\<lambda>v. refId v = r) vs) (find (\<lambda>v. refId v = r) vs')"
    using assms by (rule find_rel) (simp add: sameKey_def)
  with Cons show ?case
    by (auto split: sum.splits prod.splits)
qed

lemma varWithRefId_sameKey:
  assumes "list_all2 sameKey vs vs'"
  shows "rel_sum (=) (rel_option sameKey) (varWithRefId reg vs rid) (varWithRefId reg vs' rid)"
proof -
  have "rel_option sameKey (find (\<lambda>v. refId v = rid) vs) (find (\<lambda>v. refId v = rid) vs')"
    using assms by (rule find_rel) (simp add: sameKey_def)
  then show ?thesis
    unfolding varWithRefId_def
    using findMatch_sameKey[OF assms] refIdsWithName_sameKey[OF assms]
    by (auto split: sum.splits prod.splits option.splits elim!: option.rel_cases)
qed

lemma refIsConst_sameKey:
  assumes "list_all2 sameKey vs vs'"
  shows "refIsConst reg vs rid = refIsConst reg vs' rid"
  using varWithRefId_sameKey[OF assms, of reg rid]
  unfolding refIsConst_def
  by (auto split: sum.splits option.splits elim!: rel_sum.cases option.rel_cases simp: sameKey_def)

lemma reject_kept:
  "reject p xs = Inr ys \<Longrightarrow> x \<in> set ys \<Longrightarrow> p x = Inr False \<and> x \<in> set xs"
proof (induction xs arbitrary: ys)
  case Nil
  then show ?case by simp
next
  case (Cons a xs)
  from Cons.prems(1) obtain b zs where b: "p a = Inr b" and zs: "reject p xs = Inr zs"
    and ys: "ys = (if b then zs else a # zs)"
    by (simp split: sum.splits)
  show ?case
  proof (cases "x \<in> set zs")
    case True
    with Cons.IH[OF zs] show ?thesis by simp
  next
    case False
    with Cons.prems(2) ys have "\<not> b" "x = a" by (auto split: if_splits)
    then show ?thesis using b by simp
  qed
qed
lemma sameKey_refl: "list_all2 sameKey vs vs"
  by (simp add: list_all2_refl sameKey_def)

lemma removeLoop_result:
  "removeLoop reg dn todo = Inr res \<Longrightarrow>
     \<exists>todo'. res = dn @ todo' \<and> list_all2 (pruned reg (dn @ todo)) todo todo'"
proof (induction todo arbitrary: dn res)
  case Nil
  then show ?case by simp
next
  case (Cons v todo)
  let ?tbl = "dn @ v # todo"
  from Cons.prems obtain refs where refs: "reject (refIsConst reg ?tbl) (references v) = Inr refs"
    by (auto split: sum.splits)
  let ?v1 = "v\<lparr>references := refs\<rparr>"
  let ?tbl1 = "dn @ ?v1 # todo"
  have k1: "list_all2 sameKey ?tbl ?tbl1"
    by (intro list_all2_appendI sameKey_refl) (simp add: sameKey_refl sameKey_def)
  have f1: "refIsConst reg ?tbl1 = refIsConst reg ?tbl"
    using refIsConst_sameKey[OF k1] by auto
  from Cons.prems refs obtain irefs where
    irefs: "reject (refIsConst reg ?tbl) (initReferences v) = Inr irefs"
    by (simp add: Let_def f1 split: sum.splits)
  let ?v2 = "?v1\<lparr>initReferences := irefs\<rparr>"
  have rest: "removeLoop reg (dn @ [?v2]) todo = Inr res"
    using Cons.prems refs irefs by (simp add: Let_def f1)
  let ?tbl2 = "(dn @ [?v2]) @ todo"
  have k2: "list_all2 sameKey ?tbl (dn @ ?v2 # todo)"
    by (intro list_all2_appendI sameKey_refl) (simp add: sameKey_refl sameKey_def)
  have f2: "refIsConst reg ?tbl2 = refIsConst reg ?tbl"
    using refIsConst_sameKey[OF k2] by auto
  from Cons.IH[OF rest] obtain todo' where
    t: "res = (dn @ [?v2]) @ todo'" "list_all2 (pruned reg ?tbl2) todo todo'"
    by blast
  have "pruned reg ?tbl v ?v2"
    using refs irefs by (simp add: pruned_def sameKey_def)
  moreover have "pruned reg ?tbl2 = pruned reg ?tbl"
    unfolding pruned_def f2 ..
  then have "list_all2 (pruned reg ?tbl) todo todo'"
    using t(2) by simp
  ultimately show ?case using t(1) by auto
qed

lemma removeConstRefs_pruned:
  assumes "removeConstRefs reg variables = Inr variables'"
  shows "list_all2 (pruned reg variables) variables variables'"
  using removeLoop_result[of reg "[]" variables variables'] assms
  by (simp add: removeConstRefs_def)


text \<open>
  Claim C8. After constant-reference pruning, no entry of the references or of the init
  references of a record resolves to a record of type \<open>const\<close>, \<open>data\<close> or \<open>lookup\<close>.
\<close>

theorem removeConstRefs_no_const_refs:
  assumes "removeConstRefs reg variables = Inr variables'"
      and "v \<in> set variables'"
      and "rid \<in> set (references v) \<union> set (initReferences v)"
      and "varWithRefId reg variables' rid = Inr (Some w)"
  shows "varType w \<noteq> ''const'' \<and> varType w \<noteq> ''data'' \<and> varType w \<noteq> ''lookup''"
proof -
  have p: "list_all2 (pruned reg variables) variables variables'"
    using assms(1) by (rule removeConstRefs_pruned)
  then have k: "list_all2 sameKey variables variables'"
    by (rule list_all2_mono) (simp add: pruned_def)
  from assms(2) obtain i where i: "i < length variables'" "variables' ! i = v"
    by (auto simp: in_set_conv_nth)
  have pr: "pruned reg variables (variables ! i) v"
    using list_all2_nthD2[OF p i(1)] i(2) by simp
  have "refIsConst reg variables rid = Inr False"
  proof (cases "rid \<in> set (references v)")
    case True
    from pr have "reject (refIsConst reg variables) (references (variables ! i)) = Inr (references v)"
      by (simp add: pruned_def)
    from reject_kept[OF this True] show ?thesis by simp
  next
    case False
    with assms(3) have m: "rid \<in> set (initReferences v)" by simp
    from pr have "reject (refIsConst reg variables) (initReferences (variables ! i)) = Inr (initReferences v)"
      by (simp add: pruned_def)
    from reject_kept[OF this m] show ?thesis by simp
  qed
  then have "refIsConst reg variables' rid = Inr False"
    using refIsConst_sameKey[OF k] by simp
  then show ?thesis
    using assms(4) by (simp add: refIsConst_def)
qed

theorem removeConstRefs_no_const_refs_witness:
  "removeConstRefs exampleReg exampleTable = Inr examplePruned \<and>
   exampleVar ''_b'' [''_r''] ''_b'' ''aux'' False [''_a[_r3]''] [] \<in> set examplePruned \<and>
   ''_a[_r3]'' \<in> set (references (exampleVar ''_b'' [''_r''] ''_b'' ''aux'' False [''_a[_r3]''] [])) \<and>
   varWithRefId exampleReg examplePruned ''_a[_r3]''
     = Inr (Some (exampleVar ''_a'' [''_r3''] ''_a[_r3]'' ''aux'' False [] [])) \<and>
   varType (exampleVar ''_a'' [''_r3''] ''_a[_r3]'' ''aux'' False [] []) \<noteq> ''const'' \<and>
   varType (exampleVar ''_a'' [''_r3''] ''_a[_r3]'' ''aux'' False [] []) \<noteq> ''data'' \<and>
   varType (exampleVar ''_a'' [''_r3''] ''_a[_r3]'' ''aux'' False [] []) \<noteq> ''lookup''"
proof -
  let ?b = "exampleVar ''_b'' [''_r''] ''_b'' ''aux'' False [''_a[_r3]''] []"
  let ?w = "exampleVar ''_a'' [''_r3''] ''_a[_r3]'' ''aux'' False [] []"
  have h1: "removeConstRefs exampleReg exampleTable = Inr examplePruned"
    by (simp add: removeConstRefs_def refIsConst_def example_defs lookup_defs)
  have h2: "?b \<in> set examplePruned"
    by (simp add: examplePruned_def)
  have h3: "''_a[_r3]'' \<in> set (references ?b) \<union> set (initReferences ?b)"
    by (simp add: exampleVar_def blankVar_def)
  have h4: "varWithRefId exampleReg examplePruned ''_a[_r3]'' = Inr (Some ?w)"
    by (simp add: example_defs lookup_defs)
  show ?thesis
    using removeConstRefs_no_const_refs[OF h1 h2 h3 h4] h1 h2 h4
    by (simp add: exampleVar_def blankVar_def)
qed






subsection \<open>Lookup by reference identifier and the matching rules\<close>

lemma matchLoop_iff:
  "matchLoop reg subs rs pos \<longleftrightarrow>
     (\<forall>i < length subs. posMatches reg (subs ! i) (nth_opt rs (pos + i)))"
proof (induction subs arbitrary: pos)
  case Nil
  show ?case by simp
next
  case (Cons s subs)
  show ?case
    by (auto simp: Cons.IH less_Suc_eq_0_disj)
qed

lemma posMatches_iff:
  "posMatches reg vs (nth_opt rs p) \<longleftrightarrow> p < length rs \<and> subscriptMatches reg vs (rs ! p)"
  by (auto simp: posMatches_def nth_opt_def subscriptMatches_def dimensionContains_def
        isIndex_def isDimension_def split: option.splits subscript.splits)

lemma matchLoop_subsumes: "matchLoop reg subs rs 0 \<longleftrightarrow> subsumes reg subs rs"
  by (simp add: matchLoop_iff posMatches_iff subsumes_def)


lemma find_distinct_key:
  assumes "distinct (map f xs)" "u \<in> set xs"
  shows "find (\<lambda>v. f v = f u) xs = Some u"
  using assms by (induction xs) (auto simp: image_iff)

lemma splitLoop_word:
  assumes "isWord nm"
  shows "splitLoop (matchAll nm) False [] [] = (nm, [])"
proof -
  have "matchAll (nm @ []) = nm # matchAll []"
    using assms by (intro matchAll_word) (auto simp: isWord_def list_all_iff)
  moreover have "nm \<noteq> ''[''"
    using assms word_not_bracket[of nm] by (simp add: isWord_def list_all_iff)
  ultimately show ?thesis by simp
qed

lemma splitLoop_bracketed:
  assumes "isWord nm" "list_all isWord subs"
  shows "splitLoop (matchAll (nm @ ''['' @ join '','' subs @ '']'')) False [] [] = (nm, subs)"
proof -
  let ?tail = "''['' @ join '','' subs @ '']''"
  have w: "\<forall>s\<in>set subs. s \<noteq> [] \<and> (\<forall>c\<in>set s. isWordChar c)"
    using assms(2) by (simp add: isWord_def list_all_iff)
  have tail: "matchAll ?tail = ''['' # subs"
    using matchAll_join[OF w] by (simp add: notword)
  have nb: "\<forall>s\<in>set subs. s \<noteq> ''[''"
    using w word_not_bracket by blast
  have "matchAll (nm @ ?tail) = nm # matchAll ?tail"
    using assms(1) by (intro matchAll_word) (auto simp: notword isWord_def list_all_iff)
  moreover have "nm \<noteq> ''[''"
    using assms(1) word_not_bracket[of nm] by (simp add: isWord_def list_all_iff)
  ultimately show ?thesis
    using tail splitLoop_subs[OF nb, of nm "[]"] by simp
qed

lemma splitRefId_refIdOf:
  assumes "isWord nm" "list_all isWord subs" "normalizeSubscripts reg subs = Inr normSubs"
  shows "splitRefId reg (refIdOf nm subs) = Inr (nm, normSubs)"
proof (cases "subs = []")
  case True
  with assms(3) have "normalizeSubscripts reg [] = Inr normSubs" by simp
  then show ?thesis
    using True splitLoop_word[OF assms(1)] by (simp add: splitRefId_def refIdOf_def)
next
  case False
  then show ?thesis
    using splitLoop_bracketed[OF assms(1,2)] assms(3) by (simp add: splitRefId_def refIdOf_def)
qed

lemma refIdForVar_refIdOf:
  "refIdForVar r v = refIdOf (varName v) (refIdSubscripts r v)"
  by (simp add: refIdForVar_def refIdOf_def refIdSubscripts_def hasSubscripts_def)

lemma splitRefId_record:
  assumes "refId v = refIdForVar r v" "isWord (varName v)" "list_all isWord (subscripts v)"
      and "normalizeSubscripts reg (subscripts v) = Inr (subscripts v)"
  shows "splitRefId reg (refId v) = Inr (varName v, refIdSubscripts r v)"
proof -
  have w: "list_all isWord (refIdSubscripts r v)"
    using assms(3) by (simp add: refIdSubscripts_def)
  have e: "normalizeSubscripts reg [] = Inr []"
    by (simp add: normalizeSubscripts_def)
  have n: "normalizeSubscripts reg (refIdSubscripts r v) = Inr (refIdSubscripts r v)"
    using assms(4) e by (cases "isNonAtoAName r (varName v)") (simp_all add: refIdSubscripts_def)
  show ?thesis
    unfolding assms(1) refIdForVar_refIdOf
    using assms(2) w n by (rule splitRefId_refIdOf)
qed

lemma findMatch_find:
  assumes dist: "distinct (map refId variables)"
      and recs: "\<forall>v \<in> set cands. v \<in> set variables \<and> splitRefId reg (refId v) = Inr (varName v, rsub v)"
  shows "findMatch reg variables rs (map refId cands) =
           Inr (find (\<lambda>v. subsumes reg (rsub v) rs) cands)"
  using recs
proof (induction cands)
  case Nil
  show ?case by simp
next
  case (Cons c cands)
  then have c: "c \<in> set variables" "splitRefId reg (refId c) = Inr (varName c, rsub c)"
    by simp_all
  have f: "find (\<lambda>v. refId v = refId c) variables = Some c"
    using dist c(1) by (rule find_distinct_key)
  from Cons have ih: "findMatch reg variables rs (map refId cands) =
           Inr (find (\<lambda>v. subsumes reg (rsub v) rs) cands)" by simp
  show ?case
    using c(2) f ih by (simp add: matchLoop_subsumes)
qed

lemma find_filter: "find P (filter Q xs) = find (\<lambda>x. Q x \<and> P x) xs"
  by (induction xs) auto

text \<open>
  Claim C4, as the code has it. Let the reference identifiers of the table be unique and be
  those that \<open>refIdForVar\<close> gives with the registry, let the names and the subscripts of the
  records be words, and the subscripts of every record be in normal order. For a reference to
  a name with subscripts, all of them words that the subscript registry knows, the lookup
  completes and gives at most one record: the record whose reference identifier is the
  reference if there is one; otherwise the first record of the table that has the name of the
  reference and whose subscripts, as they stand in its reference identifier (its own when
  the name is non-apply-to-all, none otherwise), subsume the normalised subscripts of the
  reference position by position: equal indices match, equal dimensions match, a dimension
  of the variable matches an index of the reference exactly when the value of the dimension
  contains the index, and nothing else matches; and no record when no record of the table
  does.
\<close>

theorem varWithRefId_resolves:
  assumes dist: "distinct (map refId variables)"
      and ids: "\<forall>v \<in> set variables. refId v = refIdForVar nonAtoANames v"
      and recs: "\<forall>v \<in> set variables. isWord (varName v) \<and> list_all isWord (subscripts v) \<and>
                   normalizeSubscripts reg (subscripts v) = Inr (subscripts v)"
      and nm: "isWord nm"
      and subs: "list_all isWord refSubs"
      and norm: "normalizeSubscripts reg refSubs = Inr normSubs"
  shows "varWithRefId reg variables (refIdOf nm refSubs) =
           Inr (resolves nonAtoANames reg variables nm refSubs normSubs)"
proof (cases "find (\<lambda>v. refId v = refIdOf nm refSubs) variables")
  case (Some v)
  then show ?thesis by (simp add: varWithRefId_def resolves_def)
next
  case None
  have sp: "splitRefId reg (refIdOf nm refSubs) = Inr (nm, normSubs)"
    using nm subs norm by (rule splitRefId_refIdOf)
  let ?cands = "varsWithName variables nm"
  have "\<forall>v \<in> set ?cands. v \<in> set variables \<and>
          splitRefId reg (refId v) = Inr (varName v, refIdSubscripts nonAtoANames v)"
  proof
    fix v assume "v \<in> set ?cands"
    then have v: "v \<in> set variables" by (simp add: varsWithName_def)
    with ids recs have "refId v = refIdForVar nonAtoANames v" "isWord (varName v)"
      "list_all isWord (subscripts v)" "normalizeSubscripts reg (subscripts v) = Inr (subscripts v)"
      by simp_all
    then have "splitRefId reg (refId v) = Inr (varName v, refIdSubscripts nonAtoANames v)"
      by (rule splitRefId_record)
    with v show "v \<in> set variables \<and>
          splitRefId reg (refId v) = Inr (varName v, refIdSubscripts nonAtoANames v)" ..
  qed
  from findMatch_find[OF dist this]
  have "findMatch reg variables normSubs (refIdsWithName variables nm) =
          Inr (find (\<lambda>v. subsumes reg (refIdSubscripts nonAtoANames v) normSubs) ?cands)"
    by (simp add: refIdsWithName_def)
  also have "find (\<lambda>v. subsumes reg (refIdSubscripts nonAtoANames v) normSubs) ?cands =
          find (\<lambda>v. bindsByRefId nonAtoANames reg v nm normSubs) variables"
    unfolding varsWithName_def find_filter bindsByRefId_def ..
  finally show ?thesis
    using None sp by (simp add: varWithRefId_def resolves_def)
qed

lemmas binding_defs = bindsAsClaimed_def bindsByRefId_def refIdSubscripts_def refIdOf_def
  subsumes_def subscriptMatches_def dimensionContains_def isNonAtoAName_def isWord_def

theorem varWithRefId_resolves_witness:
  "distinct (map refId exampleTable) \<and>
   list_all (\<lambda>v. refId v = refIdForVar [''_a'' \<mapsto> [True], ''_d'' \<mapsto> [True]] v) exampleTable \<and>
   list_all (\<lambda>v. isWord (varName v) \<and> list_all isWord (subscripts v) \<and>
                  normalizeSubscripts exampleReg (subscripts v) = Inr (subscripts v)) exampleTable \<and>
   isWord ''_d'' \<and> list_all isWord [''_r3''] \<and>
   normalizeSubscripts exampleReg [''_r3''] = Inr [''_r3''] \<and>
   resolves [''_a'' \<mapsto> [True], ''_d'' \<mapsto> [True]] exampleReg exampleTable ''_d'' [''_r3''] [''_r3'']
     = Some (exampleVar ''_d'' [''_subb''] ''_d[_subb]'' ''aux'' False [''_b''] []) \<and>
   varWithRefId exampleReg exampleTable (refIdOf ''_d'' [''_r3''])
     = Inr (Some (exampleVar ''_d'' [''_subb''] ''_d[_subb]'' ''aux'' False [''_b''] []))"
proof -
  let ?r = "[''_a'' \<mapsto> [True], ''_d'' \<mapsto> [True]] :: string \<rightharpoonup> bool list"
  have h1: "distinct (map refId exampleTable)"
    by (simp add: example_defs)
  have h2: "list_all (\<lambda>v. refId v = refIdForVar ?r v) exampleTable"
    by (simp add: example_defs refIdForVar_def hasSubscripts_def isNonAtoAName_def)
  have h3: "list_all (\<lambda>v. isWord (varName v) \<and> list_all isWord (subscripts v) \<and>
                  normalizeSubscripts exampleReg (subscripts v) = Inr (subscripts v)) exampleTable"
    by (simp add: example_defs isWord_def isWordChar_def normalizeSubscripts_def sub_def familyOf_def)
  have h4: "isWord ''_d''" and h5: "list_all isWord [''_r3'']"
    by (simp_all add: isWord_def isWordChar_def)
  have h6: "normalizeSubscripts exampleReg [''_r3''] = Inr [''_r3'']"
    by (simp add: example_defs normalizeSubscripts_def sub_def)
  have ev: "resolves ?r exampleReg exampleTable ''_d'' [''_r3''] [''_r3'']
     = Some (exampleVar ''_d'' [''_subb''] ''_d[_subb]'' ''aux'' False [''_b''] [])"
    by (simp add: resolves_def binding_defs example_defs sub_def isIndex_def isDimension_def)
  have "varWithRefId exampleReg exampleTable (refIdOf ''_d'' [''_r3'']) =
          Inr (resolves ?r exampleReg exampleTable ''_d'' [''_r3''] [''_r3''])"
    using h1 h2[unfolded list_all_iff] h3[unfolded list_all_iff[of _ exampleTable]] h4 h5 h6
    by (rule varWithRefId_resolves)
  then have c: "varWithRefId exampleReg exampleTable (refIdOf ''_d'' [''_r3''])
     = Inr (Some (exampleVar ''_d'' [''_subb''] ''_d[_subb]'' ''aux'' False [''_b''] []))"
    unfolding ev .
  from h1 h2 h3 h4 h5 h6 ev c show ?thesis by (intro conjI)
qed

text \<open>
  Two records of one name whose subscripts both subsume those of a reference that a third
  record holds: both bind it under the rules of the claim, and the lookup takes the one
  that comes first in the table.
\<close>

theorem binding_not_unique_counterexample:
  "exampleVar ''_g'' [] ''_g'' ''aux'' False [''_h[_r1]''] [] \<in> set exampleOverlap \<and>
   refIdOf ''_h'' [''_r1''] \<in> set (references (exampleVar ''_g'' [] ''_g'' ''aux'' False [''_h[_r1]''] [])) \<and>
   exampleVar ''_h'' [''_suba''] ''_h[_suba]'' ''aux'' False [] [] \<in> set exampleOverlap \<and>
   exampleVar ''_h'' [''_r''] ''_h[_r]'' ''aux'' False [] [] \<in> set exampleOverlap \<and>
   exampleVar ''_h'' [''_suba''] ''_h[_suba]'' ''aux'' False [] []
     \<noteq> exampleVar ''_h'' [''_r''] ''_h[_r]'' ''aux'' False [] [] \<and>
   bindsAsClaimed exampleReg (exampleVar ''_h'' [''_suba''] ''_h[_suba]'' ''aux'' False [] [])
     ''_h'' [''_r1''] \<and>
   bindsAsClaimed exampleReg (exampleVar ''_h'' [''_r''] ''_h[_r]'' ''aux'' False [] [])
     ''_h'' [''_r1''] \<and>
   varWithRefId exampleReg exampleOverlap (refIdOf ''_h'' [''_r1''])
     = Inr (Some (exampleVar ''_h'' [''_suba''] ''_h[_suba]'' ''aux'' False [] [])) \<and>
   varWithRefId exampleReg (rev exampleOverlap) (refIdOf ''_h'' [''_r1''])
     = Inr (Some (exampleVar ''_h'' [''_r''] ''_h[_r]'' ''aux'' False [] []))"
proof -
  have 1: "bindsAsClaimed exampleReg (exampleVar ''_h'' [''_suba''] ''_h[_suba]'' ''aux'' False [] [])
     ''_h'' [''_r1'']"
    "bindsAsClaimed exampleReg (exampleVar ''_h'' [''_r''] ''_h[_r]'' ''aux'' False [] [])
     ''_h'' [''_r1'']"
    by (simp_all add: binding_defs example_defs sub_def isIndex_def isDimension_def)
  have 2: "varWithRefId exampleReg exampleOverlap (refIdOf ''_h'' [''_r1''])
     = Inr (Some (exampleVar ''_h'' [''_suba''] ''_h[_suba]'' ''aux'' False [] []))"
    "varWithRefId exampleReg (rev exampleOverlap) (refIdOf ''_h'' [''_r1''])
     = Inr (Some (exampleVar ''_h'' [''_r''] ''_h[_r]'' ''aux'' False [] []))"
    by (simp_all add: refIdOf_def exampleOverlap_def example_defs lookup_defs)
  have 3: "exampleVar ''_g'' [] ''_g'' ''aux'' False [''_h[_r1]''] [] \<in> set exampleOverlap"
    "refIdOf ''_h'' [''_r1''] \<in> set (references (exampleVar ''_g'' [] ''_g'' ''aux'' False [''_h[_r1]''] []))"
    "exampleVar ''_h'' [''_suba''] ''_h[_suba]'' ''aux'' False [] [] \<in> set exampleOverlap"
    "exampleVar ''_h'' [''_r''] ''_h[_r]'' ''aux'' False [] [] \<in> set exampleOverlap"
    "exampleVar ''_h'' [''_suba''] ''_h[_suba]'' ''aux'' False [] []
       \<noteq> exampleVar ''_h'' [''_r''] ''_h[_r]'' ''aux'' False [] []"
    by (simp_all add: refIdOf_def exampleOverlap_def exampleVar_def blankVar_def)
  from 1 2 3 show ?thesis by (intro conjI)
qed

text \<open>
  A reference with a subscript to an apply-to-all array: the subscripts of the record do not
  subsume it, the dimensions being different, and the lookup binds it to the record all the
  same, no subscript standing in the reference identifier of the record. A reference to a
  name that no record has binds nothing.
\<close>

lemma example_apply_to_all_binding:
  "\<not> bindsAsClaimed exampleReg
       (exampleVar ''_b'' [''_r''] ''_b'' ''aux'' False [''_a[_r3]'', ''_a[_r1]''] []) ''_b'' [''_subb'']"
  "varWithRefId exampleReg exampleTable (refIdOf ''_b'' [''_subb''])
     = Inr (Some (exampleVar ''_b'' [''_r''] ''_b'' ''aux'' False [''_a[_r3]'', ''_a[_r1]''] []))"
  "varWithRefId exampleReg exampleTable ''_nope'' = Inr None"
  by (simp_all add: binding_defs example_defs lookup_defs)



subsection \<open>Families of dimensions\<close>

lemmas family_defs = resolveFamilies_def setFamily_def familyOverride_def nth_opt_def
  containsOpt_def sortWith_def dimComparator_def exampleDims_def exampleDim_def

lemma leqDim_iff:
  "leqDim a b \<longleftrightarrow> dsize a < dsize b \<or> (dsize a = dsize b \<and> name b \<le> name a)"
  by (auto simp: leqDim_def dimComparator_def)

lemma leqDim_total: "leqDim a b \<or> leqDim b a"
  by (auto simp: leqDim_iff)

lemma leqDim_trans: "leqDim a b \<Longrightarrow> leqDim b c \<Longrightarrow> leqDim a c"
  by (auto simp: leqDim_iff)

lemma set_insortWith: "set (insortWith cmp x xs) = insert x (set xs)"
  by (induction xs) auto

lemma set_sortWith: "set (sortWith cmp xs) = set xs"
  unfolding sortWith_def by (induction xs) (auto simp: set_insortWith)

lemma sorted_insortWith:
  "sorted_wrt leqDim xs \<Longrightarrow> sorted_wrt leqDim (insortWith dimComparator x xs)"
proof (induction xs)
  case Nil
  show ?case by simp
next
  case (Cons y ys)
  show ?case
  proof (cases "dimComparator x y \<le> 0")
    case True
    then have "leqDim x y" by (simp add: leqDim_def)
    with Cons.prems have "\<forall>z\<in>set (y # ys). leqDim x z"
      using leqDim_trans by auto
    with True Cons.prems show ?thesis by simp
  next
    case False
    then have "leqDim y x" using leqDim_total[of x y] by (simp add: leqDim_def)
    with False Cons show ?thesis by (auto simp: set_insortWith)
  qed
qed

lemma sorted_sortWith: "sorted_wrt leqDim (sortWith dimComparator xs)"
  unfolding sortWith_def by (induction xs) (auto simp: sorted_insortWith)

lemma last_sortWith_max:
  assumes "xs \<noteq> []"
  shows "last (sortWith dimComparator xs) \<in> set xs \<and>
         (\<forall>e\<in>set xs. leqDim e (last (sortWith dimComparator xs)))"
proof -
  let ?s = "sortWith dimComparator xs"
  have ne: "?s \<noteq> []" using assms set_sortWith[of dimComparator xs] by auto
  then have l: "last ?s \<in> set xs" using set_sortWith[of dimComparator xs] last_in_set by blast
  have "leqDim e (last ?s)" if "e \<in> set xs" for e
  proof -
    from that have "e \<in> set ?s" by (simp add: set_sortWith)
    then obtain i where i: "i < length ?s" "?s ! i = e" by (auto simp: in_set_conv_nth)
    show ?thesis
    proof (cases "i = length ?s - 1")
      case True
      then have "e = last ?s" using i ne by (simp add: last_conv_nth)
      then show ?thesis by (simp add: leqDim_iff)
    next
      case False
      then have "i < length ?s - 1" using i by simp
      then have "leqDim (?s ! i) (?s ! (length ?s - 1))"
        using sorted_sortWith[of xs] ne by (simp add: sorted_wrt_iff_nth_less)
      then show ?thesis using i ne by (simp add: last_conv_nth)
    qed
  qed
  with l show ?thesis by blast
qed

lemma isFamilyOf_cong:
  assumes "map dimKey xs = map dimKey ys"
  shows "isFamilyOf xs ix f = isFamilyOf ys ix f"
proof -
  have a: "isFamilyOf xs ix f \<Longrightarrow> isFamilyOf ys ix f" if k: "map dimKey xs = map dimKey ys" for xs ys
  proof -
    assume "isFamilyOf xs ix f"
    then obtain m where m: "m \<in> set xs" "name m = f" "ix \<in> set (value m)"
      "\<forall>e \<in> set xs. ix \<in> set (value e) \<longrightarrow> dsize e < dsize m \<or> (dsize e = dsize m \<and> name m \<le> name e)"
      unfolding isFamilyOf_def by blast
    have im: "dimKey ` set xs = dimKey ` set ys"
      using k by (metis set_map)
    from m(1) im obtain m' where m': "m' \<in> set ys" "dimKey m' = dimKey m" by (metis imageE imageI)
    have "dsize e < dsize m' \<or> (dsize e = dsize m' \<and> name m' \<le> name e)"
      if e: "e \<in> set ys" "ix \<in> set (value e)" for e
    proof -
      from e(1) im obtain e' where e': "e' \<in> set xs" "dimKey e' = dimKey e" by (metis imageE imageI)
      with e(2) m(4) m'(2) show ?thesis by (auto simp: dimKey_def)
    qed
    then have "\<forall>e \<in> set ys. ix \<in> set (value e) \<longrightarrow>
           dsize e < dsize m' \<or> (dsize e = dsize m' \<and> name m' \<le> name e)" by blast
    moreover have "name m' = f" "ix \<in> set (value m')"
      using m m'(2) by (auto simp: dimKey_def)
    ultimately show ?thesis unfolding isFamilyOf_def using m'(1) by blast
  qed
  show ?thesis using a[OF assms] a[OF assms[symmetric]] by blast
qed

lemma setFamily_key: "dimKey (setFamily df T d) = dimKey d"
  by (auto simp: setFamily_def dimKey_def Let_def split: option.splits)

lemma setFamily_family:
  "case familyOverride df (name d) of
     Some f \<Rightarrow> family (setFamily df T d) = f
   | None \<Rightarrow> (case value d of
                [] \<Rightarrow> family (setFamily df T d) = family d
              | ix # _ \<Rightarrow> d \<in> set T \<longrightarrow> isFamilyOf T ix (family (setFamily df T d)))"
proof (cases "familyOverride df (name d)")
  case (Some f)
  then show ?thesis by (simp add: setFamily_def)
next
  case None
  show ?thesis
  proof (cases "value d")
    case Nil
    then show ?thesis using None
      by (simp add: setFamily_def nth_opt_def containsOpt_def sortWith_def)
  next
    case (Cons ix rest)
    let ?c = "filter (\<lambda>thisDim. ix \<in> set (value thisDim)) T"
    have sf: "setFamily df T d =
       (if 0 < length (sortWith dimComparator ?c) then d\<lparr>family := name (last (sortWith dimComparator ?c))\<rparr> else d)"
      using None Cons by (simp add: setFamily_def nth_opt_def containsOpt_def Let_def)
    have "isFamilyOf T ix (family (setFamily df T d))" if "d \<in> set T"
    proof -
      from that Cons have dc: "d \<in> set ?c" by simp
      then have ne: "?c \<noteq> []" by (metis empty_iff empty_set)
      from dc have "d \<in> set (sortWith dimComparator ?c)" unfolding set_sortWith .
      then have pos: "0 < length (sortWith dimComparator ?c)"
        by (metis empty_iff empty_set length_greater_0_conv)
      from last_sortWith_max[OF ne] have
        l: "last (sortWith dimComparator ?c) \<in> set ?c"
        and mx: "\<forall>e\<in>set ?c. leqDim e (last (sortWith dimComparator ?c))" by auto
      show ?thesis
        unfolding isFamilyOf_def
        apply (rule bexI[of _ "last (sortWith dimComparator ?c)"])
        using l mx pos by (auto simp: sf leqDim_iff)
    qed
    then show ?thesis using None Cons by simp
  qed
qed

lemma familyLoop_result:
  "\<exists>todo'. familyLoop df dn todo = dn @ todo' \<and>
     list_all2 (\<lambda>d d'. \<exists>T. map dimKey T = map dimKey (dn @ todo) \<and> d \<in> set T \<and> d' = setFamily df T d) todo todo'"
proof (induction todo arbitrary: dn)
  case Nil
  show ?case by simp
next
  case (Cons d todo)
  let ?T = "dn @ d # todo"
  let ?d' = "setFamily df ?T d"
  from Cons[of "dn @ [?d']"] obtain todo' where
    t: "familyLoop df (dn @ [?d']) todo = (dn @ [?d']) @ todo'"
       "list_all2 (\<lambda>d d'. \<exists>T. map dimKey T = map dimKey ((dn @ [?d']) @ todo) \<and> d \<in> set T \<and> d' = setFamily df T d) todo todo'"
    by blast
  have k: "map dimKey ((dn @ [?d']) @ todo) = map dimKey ?T"
    by (simp add: setFamily_key)
  have "list_all2 (\<lambda>d d'. \<exists>T. map dimKey T = map dimKey ?T \<and> d \<in> set T \<and> d' = setFamily df T d) todo todo'"
    using t(2) unfolding k .
  moreover have "\<exists>T. map dimKey T = map dimKey ?T \<and> d \<in> set T \<and> ?d' = setFamily df T d"
    by (rule exI[of _ ?T]) simp
  ultimately show ?case using t(1) by auto
qed

text \<open>
  Claim C5, as the code has it. Family resolution leaves the name, the value and the size of
  every dimension as they are. A dimension for which the spec's \<open>dimensionFamilies\<close> has a
  non-empty entry gets that entry as its family. Otherwise, a dimension with an empty value
  keeps its provisional family, and the family of any other dimension \<open>D\<close> is the name of a
  dimension of greatest size among the dimensions whose value contains the first index of
  \<open>D\<close>, the least name winning among dimensions of that size: the candidates are sorted by
  size ascending and by name descending, and the last one is taken.
\<close>

theorem resolveFamilies_family:
  assumes "i < length allDims"
  shows "name (resolveFamilies dimensionFamilies allDims ! i) = name (allDims ! i) \<and>
         value (resolveFamilies dimensionFamilies allDims ! i) = value (allDims ! i) \<and>
         dsize (resolveFamilies dimensionFamilies allDims ! i) = dsize (allDims ! i) \<and>
         (case familyOverride dimensionFamilies (name (allDims ! i)) of
            Some f \<Rightarrow> family (resolveFamilies dimensionFamilies allDims ! i) = f
          | None \<Rightarrow>
              (case value (allDims ! i) of
                 [] \<Rightarrow> family (resolveFamilies dimensionFamilies allDims ! i) = family (allDims ! i)
               | ix # _ \<Rightarrow> isFamilyOf allDims ix (family (resolveFamilies dimensionFamilies allDims ! i))))"
proof -
  let ?df = dimensionFamilies
  from familyLoop_result[of ?df "[]" allDims] obtain res where
    r: "resolveFamilies ?df allDims = res"
       "list_all2 (\<lambda>d d'. \<exists>T. map dimKey T = map dimKey allDims \<and> d \<in> set T \<and> d' = setFamily ?df T d) allDims res"
    by (auto simp: resolveFamilies_def)
  from list_all2_nthD[OF r(2) assms] obtain T where
    T: "map dimKey T = map dimKey allDims" "allDims ! i \<in> set T" "res ! i = setFamily ?df T (allDims ! i)"
    by blast
  have key: "dimKey (res ! i) = dimKey (allDims ! i)"
    using T(3) by (simp add: setFamily_key)
  note fam = setFamily_family[where df = ?df and d = "allDims ! i" and T = T]
  have "case familyOverride ?df (name (allDims ! i)) of
            Some f \<Rightarrow> family (res ! i) = f
          | None \<Rightarrow>
              (case value (allDims ! i) of
                 [] \<Rightarrow> family (res ! i) = family (allDims ! i)
               | ix # _ \<Rightarrow> isFamilyOf allDims ix (family (res ! i)))"
    using fam T(2) isFamilyOf_cong[OF T(1)] unfolding T(3)
    by (auto split: option.splits list.splits)
  then show ?thesis using key unfolding r(1) by (simp add: dimKey_def)
qed

theorem resolveFamilies_family_witness:
  "(0::nat) < length exampleDims \<and>
   familyOverride (Some [''_subb'' \<mapsto> ''_x'']) ''_suba'' = None \<and>
   value (exampleDims ! 0) = [''_r1'', ''_r2''] \<and>
   family (resolveFamilies (Some [''_subb'' \<mapsto> ''_x'']) exampleDims ! 0) = ''_r'' \<and>
   isFamilyOf exampleDims ''_r1'' ''_r''"
proof -
  have h: "(0::nat) < length exampleDims"
    by (simp add: exampleDims_def)
  have f: "family (resolveFamilies (Some [''_subb'' \<mapsto> ''_x'']) exampleDims ! 0) = ''_r''"
    by (simp add: family_defs)
  show ?thesis
    using resolveFamilies_family[OF h, of "Some [''_subb'' \<mapsto> ''_x'']"] h f
    by (simp add: familyOverride_def exampleDims_def exampleDim_def)
qed

text \<open>
  With \<open>_r\<close> and \<open>_zz\<close> of the same greatest size, the family of \<open>_suba\<close> is \<open>_r\<close>, the
  least of the two names, not the first of them in descending order.
\<close>

theorem family_tie_counterexample:
  "familyByDescendingName exampleDims ''_r1'' = ''_zz'' \<and>
   family (resolveFamilies None exampleDims ! 0) = ''_r'' \<and>
   family (resolveFamilies None exampleDims ! 0) \<noteq> familyByDescendingName exampleDims ''_r1''"
proof -
  have "family (resolveFamilies None exampleDims ! 0) = ''_r''"
    by (simp add: family_defs)
  moreover have "familyByDescendingName exampleDims ''_r1'' = ''_zz''"
    by (simp add: familyByDescendingName_def exampleDims_def exampleDim_def)
  ultimately show ?thesis by simp
qed


subsection \<open>Mapping inversion\<close>

lemma elementAt_setAt:
  "elementAt (setAt a k v) j = (if j = k then Some v else elementAt a j)"
  by (auto simp: elementAt_def setAt_def nth_append)

lemma setMappingValue_Inr:
  assumes "setMappingValue td cur n f = Inr res"
  shows "\<exists>k. n = Some k \<and> k < dsize td \<and> res = setAt cur k f"
  using assms by (auto simp: setMappingValue_def split: option.splits if_splits)

lemma fillFromDimension_result:
  assumes "fillFromDimension toDim f ts cur = Inr res"
  shows "elementAt res k =
           (if \<exists>td t. toDim = Some (Dimension td) \<and> t \<in> set ts \<and> indexOf (value td) t = Some k
            then Some f else elementAt cur k)"
  using assms
proof (induction ts arbitrary: cur)
  case Nil
  then show ?case by simp
next
  case (Cons t ts)
  from Cons.prems obtain td where td: "toDim = Some (Dimension td)"
    by (auto split: option.splits subscript.splits)
  from Cons.prems td obtain cur1 where
    s: "setMappingValue td cur (indexOf (value td) t) f = Inr cur1" and
    r: "fillFromDimension toDim f ts cur1 = Inr res"
    by (auto split: sum.splits)
  from setMappingValue_Inr[OF s] obtain k0 where
    k0: "indexOf (value td) t = Some k0" "cur1 = setAt cur k0 f" by blast
  show ?case
    unfolding Cons.IH[OF r] using td k0 by (auto simp: elementAt_setAt)
qed

lemma fillPosition_result:
  assumes "fillPosition reg toDim mv f i cur = Inr res"
  shows "elementAt res k =
           (if \<exists>td t. toDim = Some (Dimension td) \<and> t \<in> set (mapToIndices reg mv i) \<and>
                 indexOf (value td) t = Some k
            then Some f else elementAt cur k)"
proof -
  from assms obtain nm where nm: "nth_opt mv i = Some (Some nm)"
    by (auto simp: fillPosition_def split: option.splits)
  show ?thesis
  proof (cases "sub reg nm")
    case None
    with assms nm show ?thesis by (simp add: fillPosition_def)
  next
    case (Some s)
    show ?thesis
    proof (cases s)
      case (Dimension ts)
      with Some nm assms have "fillFromDimension toDim f (value ts) cur = Inr res"
        by (simp add: fillPosition_def)
      from fillFromDimension_result[OF this, of k] show ?thesis
        using Some Dimension nm by (simp add: mapToIndices_def)
    next
      case (Index n p fam)
      with Some nm assms obtain td where td: "toDim = Some (Dimension td)"
        and s: "setMappingValue td cur (indexOf (value td) n) f = Inr res"
        by (auto simp: fillPosition_def split: option.splits subscript.splits)
      from setMappingValue_Inr[OF s] obtain k0 where
        k0: "indexOf (value td) n = Some k0" "res = setAt cur k0 f" by blast
      show ?thesis
        using Some Index nm td k0 by (auto simp: mapToIndices_def elementAt_setAt)
    qed
  qed
qed

lemma fillLoop_result:
  assumes "fillLoop reg toDim mv fs i cur = Inr res"
  shows "(\<exists>j<length fs. hitsAt reg toDim mv (i + j) k \<and>
            (\<forall>j'. j < j' \<and> j' < length fs \<longrightarrow> \<not> hitsAt reg toDim mv (i + j') k) \<and>
            elementAt res k = Some (fs ! j))
         \<or> ((\<forall>j<length fs. \<not> hitsAt reg toDim mv (i + j) k) \<and> elementAt res k = elementAt cur k)"
  using assms
proof (induction fs arbitrary: i cur)
  case Nil
  then show ?case by simp
next
  case (Cons f fs)
  from Cons.prems obtain cur1 where
    p: "fillPosition reg toDim mv f i cur = Inr cur1" and
    r: "fillLoop reg toDim mv fs (Suc i) cur1 = Inr res"
    by (auto split: sum.splits)
  have e1: "elementAt cur1 k = (if hitsAt reg toDim mv i k then Some f else elementAt cur k)"
    using fillPosition_result[OF p, of k] by (simp add: hitsAt_def)
  from Cons.IH[OF r] consider
    (later) j where "j < length fs" "hitsAt reg toDim mv (Suc i + j) k"
        "\<forall>j'. j < j' \<and> j' < length fs \<longrightarrow> \<not> hitsAt reg toDim mv (Suc i + j') k"
        "elementAt res k = Some (fs ! j)"
  | (none) "\<forall>j<length fs. \<not> hitsAt reg toDim mv (Suc i + j) k" "elementAt res k = elementAt cur1 k"
    by blast
  then show ?case
  proof cases
    case later
    have "\<forall>j'. Suc j < j' \<and> j' < length (f # fs) \<longrightarrow> \<not> hitsAt reg toDim mv (i + j') k"
    proof (intro allI impI)
      fix j' assume a: "Suc j < j' \<and> j' < length (f # fs)"
      then obtain j'' where j'': "j' = Suc j''" by (cases j') auto
      with a later(3) have "\<not> hitsAt reg toDim mv (Suc i + j'') k" by simp
      then show "\<not> hitsAt reg toDim mv (i + j') k" using j'' by simp
    qed
    moreover have "Suc j < length (f # fs)" "hitsAt reg toDim mv (i + Suc j) k"
      "elementAt res k = Some ((f # fs) ! Suc j)"
      using later by simp_all
    ultimately show ?thesis by blast
  next
    case none
    have rest: "\<not> hitsAt reg toDim mv (i + j') k" if "0 < j'" "j' < length (f # fs)" for j'
    proof -
      from that obtain j'' where j'': "j' = Suc j''" by (cases j') auto
      with that none(1) have "\<not> hitsAt reg toDim mv (Suc i + j'') k" by simp
      then show ?thesis using j'' by simp
    qed
    show ?thesis
    proof (cases "hitsAt reg toDim mv i k")
      case True
      then have "0 < length (f # fs)" "hitsAt reg toDim mv (i + 0) k"
        "elementAt res k = Some ((f # fs) ! 0)"
        using none(2) e1 by simp_all
      moreover have "\<forall>j'. 0 < j' \<and> j' < length (f # fs) \<longrightarrow> \<not> hitsAt reg toDim mv (i + j') k"
        using rest by blast
      ultimately show ?thesis by blast
    next
      case False
      have "\<not> hitsAt reg toDim mv (i + j) k" if "j < length (f # fs)" for j
        using False rest[of j] that by (cases "j = 0") auto
      moreover have "elementAt res k = elementAt cur k"
        using none(2) e1 False by simp
      ultimately show ?thesis by blast
    qed
  qed
qed

lemma elementAt_Nil: "elementAt [] k = None"
  by (simp add: elementAt_def)

lemma invertMapping_positions:
  assumes "invertMapping reg fromDim toDimName mappingValue = Inr inverted"
  shows "(mappingValue = [] \<longrightarrow> inverted = map Some (value fromDim)) \<and>
         (mappingValue \<noteq> [] \<longrightarrow>
            (case elementAt inverted k of
               Some f \<Rightarrow>
                 \<exists>i<length (value fromDim). f = value fromDim ! i \<and>
                    mapsTo reg toDimName mappingValue i k \<and>
                    (\<forall>j. i < j \<and> j < length (value fromDim) \<longrightarrow>
                         \<not> mapsTo reg toDimName mappingValue j k)
             | None \<Rightarrow> \<forall>i<length (value fromDim). \<not> mapsTo reg toDimName mappingValue i k))"
proof (cases "mappingValue = []")
  case True
  with assms show ?thesis by (simp add: invertMapping_def)
next
  case False
  with assms have "fillLoop reg (sub reg toDimName) mappingValue (value fromDim) 0 [] = Inr inverted"
    by (simp add: invertMapping_def)
  note r = fillLoop_result[OF this, of k]
  have eq: "hitsAt reg (sub reg toDimName) mappingValue i k = mapsTo reg toDimName mappingValue i k" for i
    by (simp add: hitsAt_def mapsTo_def)
  from r consider
    (hit) j where "j < length (value fromDim)" "mapsTo reg toDimName mappingValue j k"
      "\<forall>j'. j < j' \<and> j' < length (value fromDim) \<longrightarrow> \<not> mapsTo reg toDimName mappingValue j' k"
      "elementAt inverted k = Some (value fromDim ! j)"
  | (miss) "\<forall>j<length (value fromDim). \<not> mapsTo reg toDimName mappingValue j k"
      "elementAt inverted k = None"
    unfolding eq by (auto simp: elementAt_Nil)
  then show ?thesis
  proof cases
    case hit
    then show ?thesis using False by auto
  next
    case miss
    then show ?thesis using False by simp
  qed
qed

lemma fillFromDimension_completes:
  assumes "\<forall>t\<in>set ts. \<exists>k. indexOf (value td) t = Some k \<and> k < dsize td"
  shows "\<exists>res. fillFromDimension (Some (Dimension td)) f ts cur = Inr res"
  using assms
proof (induction ts arbitrary: cur)
  case Nil
  show ?case by simp
next
  case (Cons t ts)
  then obtain k where k: "indexOf (value td) t = Some k" "k < dsize td" by auto
  from Cons.IH[of "setAt cur k f"] Cons.prems
  show ?case using k by (simp add: setMappingValue_def)
qed

lemma fillPosition_completes:
  assumes "nth_opt mv i = Some (Some nm)" "sub reg nm \<noteq> None"
      and "\<forall>t\<in>set (mapToIndices reg mv i). \<exists>k. indexOf (value td) t = Some k \<and> k < dsize td"
  shows "\<exists>res. fillPosition reg (Some (Dimension td)) mv f i cur = Inr res"
proof -
  from assms(2) obtain s where s: "sub reg nm = Some s" by auto
  show ?thesis
  proof (cases s)
    case (Dimension ts)
    with s assms(1,3) have "\<forall>t\<in>set (value ts). \<exists>k. indexOf (value td) t = Some k \<and> k < dsize td"
      by (simp add: mapToIndices_def)
    from fillFromDimension_completes[OF this, of f cur] show ?thesis
      using s Dimension assms(1) by (simp add: fillPosition_def)
  next
    case (Index n p fam)
    with s assms(1,3) obtain k where "indexOf (value td) n = Some k" "k < dsize td"
      by (auto simp: mapToIndices_def)
    then show ?thesis
      using s Index assms(1) by (simp add: fillPosition_def setMappingValue_def)
  qed
qed

lemma fillLoop_completes:
  assumes "\<forall>j<length fs. (\<exists>nm. nth_opt mv (i + j) = Some (Some nm) \<and> sub reg nm \<noteq> None) \<and>
             (\<forall>t\<in>set (mapToIndices reg mv (i + j)). \<exists>k. indexOf (value td) t = Some k \<and> k < dsize td)"
  shows "\<exists>res. fillLoop reg (Some (Dimension td)) mv fs i cur = Inr res"
  using assms
proof (induction fs arbitrary: i cur)
  case Nil
  show ?case by simp
next
  case (Cons f fs)
  from Cons.prems[rule_format, of 0] obtain nm where
    nm: "nth_opt mv i = Some (Some nm)" "sub reg nm \<noteq> None"
    and ts: "\<forall>t\<in>set (mapToIndices reg mv i). \<exists>k. indexOf (value td) t = Some k \<and> k < dsize td"
    by auto
  from fillPosition_completes[OF nm ts, of f cur] obtain cur1 where
    c: "fillPosition reg (Some (Dimension td)) mv f i cur = Inr cur1" by blast
  have "\<forall>j<length fs. (\<exists>nm. nth_opt mv (Suc i + j) = Some (Some nm) \<and> sub reg nm \<noteq> None) \<and>
             (\<forall>t\<in>set (mapToIndices reg mv (Suc i + j)). \<exists>k. indexOf (value td) t = Some k \<and> k < dsize td)"
  proof (intro allI impI)
    fix j assume "j < length fs"
    then have "Suc j < length (f # fs)" by simp
    from Cons.prems[rule_format, OF this] show "(\<exists>nm. nth_opt mv (Suc i + j) = Some (Some nm) \<and> sub reg nm \<noteq> None) \<and>
             (\<forall>t\<in>set (mapToIndices reg mv (Suc i + j)). \<exists>k. indexOf (value td) t = Some k \<and> k < dsize td)"
      by simp
  qed
  from Cons.IH[OF this, of cur1] show ?case using c by simp
qed

lemma invertMapping_completes:
  assumes "entryResolves reg fromDim (toDimName, mappingValue)"
  shows "\<exists>inverted. invertMapping reg fromDim toDimName mappingValue = Inr inverted"
proof (cases "mappingValue = []")
  case True
  then show ?thesis by (simp add: invertMapping_def)
next
  case False
  with assms obtain td where td: "sub reg toDimName = Some (Dimension td)"
    by (auto simp: entryResolves_def split: option.splits subscript.splits)
  with assms False have a: "list_all
                    (\<lambda>i. (case nth_opt mappingValue i of
                            Some (Some nm) \<Rightarrow> sub reg nm \<noteq> None
                          | _ \<Rightarrow> False) \<and>
                         list_all
                           (\<lambda>t. case indexOf (value td) t of
                                  Some k \<Rightarrow> k < dsize td
                                | None \<Rightarrow> False)
                           (mapToIndices reg mappingValue i))
                    [0 ..< length (value fromDim)]"
    by (simp add: entryResolves_def)
  have "\<forall>j<length (value fromDim). (\<exists>nm. nth_opt mappingValue (0 + j) = Some (Some nm) \<and> sub reg nm \<noteq> None) \<and>
             (\<forall>t\<in>set (mapToIndices reg mappingValue (0 + j)). \<exists>k. indexOf (value td) t = Some k \<and> k < dsize td)"
  proof (intro allI impI)
    fix j assume j: "j < length (value fromDim)"
    with a have b: "(case nth_opt mappingValue j of
                            Some (Some nm) \<Rightarrow> sub reg nm \<noteq> None
                          | _ \<Rightarrow> False)"
       and c: "list_all (\<lambda>t. case indexOf (value td) t of Some k \<Rightarrow> k < dsize td | None \<Rightarrow> False)
                           (mapToIndices reg mappingValue j)"
      by (auto simp: list_all_iff)
    from b have "\<exists>nm. nth_opt mappingValue j = Some (Some nm) \<and> sub reg nm \<noteq> None"
      by (auto split: option.splits)
    moreover from c have "\<forall>t\<in>set (mapToIndices reg mappingValue j). \<exists>k. indexOf (value td) t = Some k \<and> k < dsize td"
      by (auto simp: list_all_iff split: option.splits)
    ultimately show "(\<exists>nm. nth_opt mappingValue (0 + j) = Some (Some nm) \<and> sub reg nm \<noteq> None) \<and>
             (\<forall>t\<in>set (mapToIndices reg mappingValue (0 + j)). \<exists>k. indexOf (value td) t = Some k \<and> k < dsize td)"
      by simp
  qed
  from fillLoop_completes[OF this, of "[]"] show ?thesis
    using False td by (simp add: invertMapping_def)
qed

lemma invertEntries_completes:
  assumes "list_all (entryResolves reg fromDim) ms"
  shows "\<exists>ms'. invertEntries reg fromDim ms = Inr ms' \<and>
           list_all2 (\<lambda>e e'. fst e' = fst e \<and> invertMapping reg fromDim (fst e) (snd e) = Inr (snd e')) ms ms'"
  using assms
proof (induction ms)
  case Nil
  show ?case by simp
next
  case (Cons e ms)
  obtain t mv where e: "e = (t, mv)" by (cases e)
  from Cons.prems e have "entryResolves reg fromDim (t, mv)" by simp
  from invertMapping_completes[OF this] obtain iv where
    iv: "invertMapping reg fromDim t mv = Inr iv" by blast
  from Cons obtain ms' where ms': "invertEntries reg fromDim ms = Inr ms'"
    "list_all2 (\<lambda>e e'. fst e' = fst e \<and> invertMapping reg fromDim (fst e) (snd e) = Inr (snd e')) ms ms'"
    by auto
  show ?case using e iv ms' by simp
qed

lemma invertLoop_completes:
  assumes "list_all (\<lambda>s. case s of
                     Dimension d \<Rightarrow> list_all (entryResolves reg d) (mappings d)
                   | Index n p f \<Rightarrow> True) xs"
  shows "\<exists>xs'. invertLoop reg xs = Inr xs' \<and>
           list_all2 (\<lambda>s s'. case s of
                Index n p f \<Rightarrow> s' = s
              | Dimension d \<Rightarrow> \<exists>ms'. s' = Dimension (d\<lparr>mappings := ms'\<rparr>) \<and>
                   list_all2 (\<lambda>e e'. fst e' = fst e \<and> invertMapping reg d (fst e) (snd e) = Inr (snd e'))
                     (mappings d) ms') xs xs'"
  using assms
proof (induction xs)
  case Nil
  show ?case by simp
next
  case (Cons s xs)
  from Cons obtain xs' where xs': "invertLoop reg xs = Inr xs'"
    "list_all2 (\<lambda>s s'. case s of
                Index n p f \<Rightarrow> s' = s
              | Dimension d \<Rightarrow> \<exists>ms'. s' = Dimension (d\<lparr>mappings := ms'\<rparr>) \<and>
                   list_all2 (\<lambda>e e'. fst e' = fst e \<and> invertMapping reg d (fst e) (snd e) = Inr (snd e'))
                     (mappings d) ms') xs xs'"
    by auto
  show ?case
  proof (cases s)
    case (Index n p f)
    then show ?thesis using xs' by simp
  next
    case (Dimension d)
    with Cons.prems have "list_all (entryResolves reg d) (mappings d)" by simp
    from invertEntries_completes[OF this] obtain ms' where
      "invertEntries reg d (mappings d) = Inr ms'"
      "list_all2 (\<lambda>e e'. fst e' = fst e \<and> invertMapping reg d (fst e) (snd e) = Inr (snd e')) (mappings d) ms'"
      by blast
    then show ?thesis using Dimension xs' by auto
  qed
qed

text \<open>
  Claim C7, as the code has it. When every mapping entry of the registry resolves, mapping
  inversion completes, and for every dimension \<open>fromDim\<close> with a mapping to \<open>toDim\<close>: if the
  declared mapping value was empty, the stored mapping is the list of the indices of
  \<open>fromDim\<close>; otherwise position \<open>k\<close> of the stored mapping holds the index of \<open>fromDim\<close> that
  maps to the index at position \<open>k\<close> of \<open>toDim\<close>, the last such index of \<open>fromDim\<close> when
  there are several, and is a hole when there is none.
\<close>

theorem invertMappings_stored:
  assumes "registryResolves reg"
      and "i < length reg" and "reg ! i = Dimension fromDim"
      and "j < length (mappings fromDim)" and "mappings fromDim ! j = (toDimName, mappingValue)"
  shows "\<exists>reg' ms'. invertMappings reg = Inr reg' \<and>
           reg' ! i = Dimension (fromDim\<lparr>mappings := ms'\<rparr>) \<and>
           fst (ms' ! j) = toDimName \<and>
           (mappingValue = [] \<longrightarrow> snd (ms' ! j) = map Some (value fromDim)) \<and>
           (mappingValue \<noteq> [] \<longrightarrow>
              (\<forall>k. case elementAt (snd (ms' ! j)) k of
                 Some f \<Rightarrow>
                   \<exists>p<length (value fromDim). f = value fromDim ! p \<and>
                      mapsTo reg toDimName mappingValue p k \<and>
                      (\<forall>q. p < q \<and> q < length (value fromDim) \<longrightarrow>
                           \<not> mapsTo reg toDimName mappingValue q k)
               | None \<Rightarrow> \<forall>p<length (value fromDim). \<not> mapsTo reg toDimName mappingValue p k))"
proof -
  from assms(1) invertLoop_completes[of reg reg] obtain reg' where
    r: "invertMappings reg = Inr reg'" and
    l: "list_all2 (\<lambda>s s'. case s of
                Index n p f \<Rightarrow> s' = s
              | Dimension d \<Rightarrow> \<exists>ms'. s' = Dimension (d\<lparr>mappings := ms'\<rparr>) \<and>
                   list_all2 (\<lambda>e e'. fst e' = fst e \<and> invertMapping reg d (fst e) (snd e) = Inr (snd e'))
                     (mappings d) ms') reg reg'"
    by (auto simp: registryResolves_def invertMappings_def)
  from list_all2_nthD[OF l assms(2)] assms(3) obtain ms' where
    ms': "reg' ! i = Dimension (fromDim\<lparr>mappings := ms'\<rparr>)"
      "list_all2 (\<lambda>e e'. fst e' = fst e \<and> invertMapping reg fromDim (fst e) (snd e) = Inr (snd e'))
                     (mappings fromDim) ms'"
    by auto
  from list_all2_nthD[OF ms'(2) assms(4)] assms(5) have
    e: "fst (ms' ! j) = toDimName" "invertMapping reg fromDim toDimName mappingValue = Inr (snd (ms' ! j))"
    by auto
  have "(mappingValue = [] \<longrightarrow> snd (ms' ! j) = map Some (value fromDim)) \<and>
           (mappingValue \<noteq> [] \<longrightarrow>
              (\<forall>k. case elementAt (snd (ms' ! j)) k of
                 Some f \<Rightarrow>
                   \<exists>p<length (value fromDim). f = value fromDim ! p \<and>
                      mapsTo reg toDimName mappingValue p k \<and>
                      (\<forall>q. p < q \<and> q < length (value fromDim) \<longrightarrow>
                           \<not> mapsTo reg toDimName mappingValue q k)
               | None \<Rightarrow> \<forall>p<length (value fromDim). \<not> mapsTo reg toDimName mappingValue p k))"
    using invertMapping_positions[OF e(2)] by blast
  with r ms'(1) e(1) show ?thesis by blast
qed


lemmas mapping_defs = invertMappings_def invertMapping_def fillPosition_def setMappingValue_def
  setAt_def nth_opt_def sub_def exampleMapReg_def exampleFromDim_def exampleDim_def

lemma example_inverted_entries:
  fixes reg' ms'
  assumes r: "invertMappings (exampleMapReg [Some ''_t2'', Some ''_t1'', Some ''_tsub''] []) = Inr reg'"
    "reg' ! 0 = Dimension ((exampleFromDim [Some ''_t2'', Some ''_t1'', Some ''_tsub''] [])\<lparr>mappings := ms'\<rparr>)"
  and ev: "invertMappings (exampleMapReg [Some ''_t2'', Some ''_t1'', Some ''_tsub''] []) = Inr (exampleMapReg [Some ''_f2'', Some ''_f1'', Some ''_f3'', Some ''_f3'']
              [Some ''_f1'', Some ''_f2'', Some ''_f3''])"
  shows "ms' = [(''_t'', [Some ''_f2'', Some ''_f1'', Some ''_f3'', Some ''_f3'']),
       (''_u'', [Some ''_f1'', Some ''_f2'', Some ''_f3''])]"
proof -
  from r(1) ev have "reg' = exampleMapReg [Some ''_f2'', Some ''_f1'', Some ''_f3'', Some ''_f3'']
              [Some ''_f1'', Some ''_f2'', Some ''_f3'']" by simp
  then have "reg' ! 0 = Dimension (exampleFromDim [Some ''_f2'', Some ''_f1'', Some ''_f3'', Some ''_f3'']
              [Some ''_f1'', Some ''_f2'', Some ''_f3''])"
    by (simp add: exampleMapReg_def)
  with r(2) have "mappings ((exampleFromDim [Some ''_t2'', Some ''_t1'', Some ''_tsub''] [])\<lparr>mappings := ms'\<rparr>)
     = mappings (exampleFromDim [Some ''_f2'', Some ''_f1'', Some ''_f3'', Some ''_f3'']
              [Some ''_f1'', Some ''_f2'', Some ''_f3''])"
    by simp
  then show ?thesis by (simp add: exampleFromDim_def)
qed

lemma example_from_position: assumes "p < length (value (exampleFromDim a b))" "''_f3'' = value (exampleFromDim a b) ! p"
  shows "p = 2"
proof -
  have v: "value (exampleFromDim a b) = [''_f1'', ''_f2'', ''_f3'']"
    by (simp add: exampleFromDim_def exampleDim_def)
  from assms(1) have "p = 0 \<or> p = 1 \<or> p = 2" unfolding v by auto
  with assms(2) show ?thesis unfolding v by auto
qed

theorem invertMappings_stored_witness:
  "registryResolves (exampleMapReg [Some ''_t2'', Some ''_t1'', Some ''_tsub''] []) \<and>
   exampleMapReg [Some ''_t2'', Some ''_t1'', Some ''_tsub''] [] ! 0
     = Dimension (exampleFromDim [Some ''_t2'', Some ''_t1'', Some ''_tsub''] []) \<and>
   mappings (exampleFromDim [Some ''_t2'', Some ''_t1'', Some ''_tsub''] []) ! 0
     = (''_t'', [Some ''_t2'', Some ''_t1'', Some ''_tsub'']) \<and>
   invertMappings (exampleMapReg [Some ''_t2'', Some ''_t1'', Some ''_tsub''] [])
     = Inr (exampleMapReg [Some ''_f2'', Some ''_f1'', Some ''_f3'', Some ''_f3'']
              [Some ''_f1'', Some ''_f2'', Some ''_f3'']) \<and>
   mapsTo (exampleMapReg [Some ''_t2'', Some ''_t1'', Some ''_tsub''] []) ''_t''
     [Some ''_t2'', Some ''_t1'', Some ''_tsub''] 2 3"
proof -
  let ?mv = "[Some ''_t2'', Some ''_t1'', Some ''_tsub'']"
  let ?R = "exampleMapReg ?mv []"
  let ?F = "exampleFromDim ?mv []"
  have h1: "registryResolves ?R"
    by (simp add: registryResolves_def entryResolves_def mapToIndices_def mapping_defs)
  have h2: "0 < length ?R" by (simp add: exampleMapReg_def)
  have h3: "?R ! 0 = Dimension ?F" by (simp add: exampleMapReg_def)
  have h4: "0 < length (mappings ?F)" by (simp add: exampleFromDim_def)
  have h5: "mappings ?F ! 0 = (''_t'', ?mv)" by (simp add: exampleFromDim_def)
  have ev: "invertMappings ?R = Inr (exampleMapReg [Some ''_f2'', Some ''_f1'', Some ''_f3'', Some ''_f3'']
              [Some ''_f1'', Some ''_f2'', Some ''_f3''])"
    by (simp add: mapping_defs)
  have ne: "?mv \<noteq> []" by simp
  from invertMappings_stored[OF h1 h2 h3 h4 h5] obtain reg' ms' where
    c: "invertMappings ?R = Inr reg' \<and>
           reg' ! 0 = Dimension (?F\<lparr>mappings := ms'\<rparr>) \<and>
           fst (ms' ! 0) = ''_t'' \<and>
           (?mv = [] \<longrightarrow> snd (ms' ! 0) = map Some (value ?F)) \<and>
           (?mv \<noteq> [] \<longrightarrow>
              (\<forall>k. case elementAt (snd (ms' ! 0)) k of
                 Some f \<Rightarrow>
                   \<exists>p<length (value ?F). f = value ?F ! p \<and>
                      mapsTo ?R ''_t'' ?mv p k \<and>
                      (\<forall>q. p < q \<and> q < length (value ?F) \<longrightarrow>
                           \<not> mapsTo ?R ''_t'' ?mv q k)
               | None \<Rightarrow> \<forall>p<length (value ?F). \<not> mapsTo ?R ''_t'' ?mv p k))"
    by (elim exE)
  note r1 = c[THEN conjunct1]
  note r2 = c[THEN conjunct2, THEN conjunct1]
  note k = c[THEN conjunct2, THEN conjunct2, THEN conjunct2, THEN conjunct2, rule_format, OF ne]
  have ms: "ms' = [(''_t'', [Some ''_f2'', Some ''_f1'', Some ''_f3'', Some ''_f3'']),
       (''_u'', [Some ''_f1'', Some ''_f2'', Some ''_f3''])]"
    using r1 r2 ev by (rule example_inverted_entries)
  have e3: "elementAt (snd (ms' ! 0)) 3 = Some ''_f3''"
    unfolding ms by (simp add: elementAt_def)
  from k[of 3] have "\<exists>p<length (value ?F). ''_f3'' = value ?F ! p \<and>
                      mapsTo ?R ''_t'' ?mv p 3 \<and>
                      (\<forall>q. p < q \<and> q < length (value ?F) \<longrightarrow>
                           \<not> mapsTo ?R ''_t'' ?mv q 3)"
    unfolding e3 option.case .
  then obtain p where
    p: "p < length (value ?F)" "''_f3'' = value ?F ! p" "mapsTo ?R ''_t'' ?mv p 3"
    by blast
  have "p = 2"
    using p(1,2) by (rule example_from_position)
  with p(3) have m: "mapsTo ?R ''_t'' ?mv 2 3" by simp
  show ?thesis
    by (intro conjI h1 h3 h5 ev m)
qed


text \<open>
  A mapping value that names \<open>_f1\<close>, a known index that is not an index of the map-to
  dimension \<open>_t\<close>: the pass ends in a \<open>ReferenceError\<close> on the name \<open>toSubName\<close>, raised while
  the diagnostic is built, and no diagnostic names the index or a dimension.
\<close>

theorem unknown_map_to_index_counterexample:
  "invertMappings (exampleMapReg [Some ''_t2'', Some ''_f1'', Some ''_tsub''] [])
     = Inl (ReferenceError ''toSubName'')"
  by (simp add: mapping_defs)

subsection \<open>An unparseable spec file\<close>

text \<open>
  Claim C9 at its failing input: whatever \<open>B.read\<close> and \<open>JSON.parse\<close> do elsewhere, when the
  file is read and \<open>JSON.parse\<close> throws on its contents, \<open>parseJsonFile\<close> returns the empty
  object, as it does when the file cannot be read. Nothing is written and the process does
  not exit: the pipeline goes on with the empty spec.
\<close>

theorem parseJsonFile_unparseable:
  "parseJsonFile (B_read(filename := Returned text)) (JSON_parse(text := Threw)) filename
     = JObject [] \<and>
   parseJsonFile (B_read(filename := Threw)) JSON_parse filename = JObject []"
  by (simp add: parseJsonFile_def)

subsection \<open>Expansion of dimensions\<close>

lemma subDim_Some: "subDim T s = Some c \<Longrightarrow> c \<in> set T \<and> name c = s"
  by (auto simp: subDim_def find_Some_iff)

lemma subDim_None: "subDim T s = None \<longleftrightarrow> s \<notin> name ` set T"
  by (auto simp: subDim_def find_None_iff)

lemma set_expandValue:
  "set (expandValue T d) =
     (\<Union>s \<in> set (value d). case subDim T s of Some c \<Rightarrow> set (value c) | None \<Rightarrow> {s})"
  by (auto simp: expandValue_def split: option.splits)

lemma height_zero: "height rk N xs = 0 \<longleftrightarrow> set xs \<inter> N = {}"
proof
  assume h: "height rk N xs = 0"
  show "set xs \<inter> N = {}"
  proof (rule ccontr)
    assume "set xs \<inter> N \<noteq> {}"
    then obtain s where s: "s \<in> set xs \<inter> N" by blast
    have "Suc (rk s) \<le> height rk N xs"
      unfolding height_def using s by (intro Max_ge) auto
    with h show False by simp
  qed
next
  assume "set xs \<inter> N = {}"
  then show "height rk N xs = 0" by (simp add: height_def)
qed

lemma height_less:
  assumes "0 < b" "\<forall>s \<in> set xs \<inter> N. Suc (rk s) < b"
  shows "height rk N xs < b"
  unfolding height_def using assms by (subst Max_less_iff) auto

lemma height_ge: "s \<in> set xs \<Longrightarrow> s \<in> N \<Longrightarrow> Suc (rk s) \<le> height rk N xs"
  unfolding height_def by (intro Max_ge) auto

lemma concat_singletons:
  "\<forall>s \<in> set xs. f s = [s] \<Longrightarrow> concat (map f xs) = xs"
  by (induction xs) auto

lemma expandValue_free:
  assumes "set (value d) \<inter> name ` set T = {}"
  shows "expandValue T d = value d"
proof -
  have "\<forall>s \<in> set (value d). subDim T s = None"
    using assms by (auto simp: subDim_None)
  then have "\<forall>s \<in> set (value d).
      (case subDim T s of Some d \<Rightarrow> value d | None \<Rightarrow> [s]) = [s]"
    by simp
  then show ?thesis
    unfolding expandValue_def by (rule concat_singletons)
qed

lemma expandValue_rank:
  assumes ok: "rankOK rk T" and d: "\<forall>s \<in> set (value d). s \<in> name ` set T \<longrightarrow> rk s < b"
      and t: "t \<in> set (expandValue T d)" "t \<in> name ` set T"
  shows "Suc (rk t) < b"
proof -
  from t(1) obtain s where s: "s \<in> set (value d)"
    "t \<in> (case subDim T s of Some c \<Rightarrow> set (value c) | None \<Rightarrow> {s})"
    by (auto simp: set_expandValue)
  show ?thesis
  proof (cases "subDim T s")
    case None
    with s(2) have "t = s" by simp
    with None t(2) show ?thesis by (simp add: subDim_None)
  next
    case (Some c)
    then have c: "c \<in> set T" "name c = s" by (auto dest: subDim_Some)
    from Some s(2) have "t \<in> set (value c)" by simp
    with ok c t(2) have "rk t < rk s" by (auto simp: rankOK_def)
    moreover have "rk s < b" using d s(1) c by force
    ultimately show ?thesis by simp
  qed
qed

lemma expandValue_height:
  assumes ok: "rankOK rk T" and d: "d \<in> set T" and nf: "set (value d) \<inter> name ` set T \<noteq> {}"
  shows "height rk (name ` set T) (expandValue T d) < height rk (name ` set T) (value d)"
proof -
  let ?N = "name ` set T"
  let ?h = "height rk ?N (value d)"
  from nf have pos: "0 < ?h" using height_zero[of rk ?N "value d"] by auto
  have "\<forall>s \<in> set (value d). s \<in> ?N \<longrightarrow> rk s < ?h"
    using height_ge[of _ "value d" ?N rk] by (auto simp: Suc_le_eq)
  then have "\<forall>t \<in> set (expandValue T d) \<inter> ?N. Suc (rk t) < ?h"
    using expandValue_rank[OF ok, of d ?h] by blast
  with pos show ?thesis by (rule height_less)
qed

lemma names_eq: "map name T' = map name T \<Longrightarrow> name ` set T' = name ` set T"
  by (metis set_map)

lemma expandPass_spec:
  assumes "rankOK rk (dn @ todo)" "expandPass dn todo found = (T', found')"
  shows "map name T' = map name (dn @ todo) \<and> rankOK rk T' \<and>
         totalHeight rk T' \<le> totalHeight rk (dn @ todo) \<and>
         (found' \<longrightarrow> found \<or> totalHeight rk T' < totalHeight rk (dn @ todo)) \<and>
         (found \<longrightarrow> found') \<and>
         (\<not> found' \<longrightarrow> T' = dn @ todo \<and>
             (\<forall>d \<in> set todo. set (value d) \<inter> name ` set (dn @ todo) = {})) \<and>
         ((\<forall>d \<in> set (dn @ todo). dsize d = length (value d)) \<longrightarrow>
             (\<forall>d \<in> set T'. dsize d = length (value d)))"
  using assms
proof (induction todo arbitrary: dn found)
  case Nil
  then show ?case by simp
next
  case (Cons dim todo)
  let ?T = "dn @ dim # todo"
  let ?N = "name ` set ?T"
  let ?v = "expandValue ?T dim"
  let ?dim1 = "if ?v \<noteq> value dim then dim\<lparr>value := ?v, dsize := length ?v\<rparr> else dim"
  let ?f1 = "if ?v \<noteq> value dim then True else found"
  let ?T1 = "(dn @ [?dim1]) @ todo"
  have step: "expandPass (dn @ [?dim1]) todo ?f1 = (T', found')"
    using Cons.prems(2) by (simp add: Let_def split: if_splits)
  have nm: "map name ?T1 = map name ?T" by simp
  have N1: "name ` set ?T1 = ?N" using names_eq[OF nm] .
  have dimT: "dim \<in> set ?T" by simp
  have drk: "\<forall>s \<in> set (value dim). s \<in> ?N \<longrightarrow> rk s < rk (name dim)"
    using Cons.prems(1) dimT unfolding rankOK_def by blast
  have vrk: "\<forall>t \<in> set ?v. t \<in> ?N \<longrightarrow> rk t < rk (name dim)"
    using expandValue_rank[OF Cons.prems(1) drk] by (auto simp: Suc_lessD)
  have ok1: "rankOK rk ?T1"
    unfolding rankOK_def N1
  proof (intro ballI impI)
    fix d s assume d: "d \<in> set ?T1" and s: "s \<in> set (value d)" "s \<in> ?N"
    show "rk s < rk (name d)"
    proof (cases "d = ?dim1")
      case True
      then show ?thesis using s vrk drk by (auto split: if_splits)
    next
      case False
      with d have "d \<in> set ?T" by auto
      with Cons.prems(1) s show ?thesis unfolding rankOK_def by blast
    qed
  qed
  have free_eq: "set (value dim) \<inter> ?N = {} \<Longrightarrow> ?v = value dim"
    by (rule expandValue_free)
  have strict: "set (value dim) \<inter> ?N \<noteq> {} \<Longrightarrow>
        height rk ?N ?v < height rk ?N (value dim)"
    using expandValue_height[OF Cons.prems(1) dimT] .
  have changed_iff: "?v \<noteq> value dim \<longleftrightarrow> set (value dim) \<inter> ?N \<noteq> {}"
    using free_eq strict by fastforce
  have hs: "totalHeight rk ?T1 \<le> totalHeight rk ?T \<and>
            (?v \<noteq> value dim \<longrightarrow> totalHeight rk ?T1 < totalHeight rk ?T)"
    unfolding totalHeight_def N1 using strict changed_iff
    by (auto simp: less_imp_le)
  note ih = Cons.IH[OF ok1 step]
  have sz: "(\<forall>d \<in> set ?T. dsize d = length (value d)) \<Longrightarrow>
             (\<forall>d \<in> set ?T1. dsize d = length (value d))"
    by auto
  show ?case
  proof (intro conjI impI)
    show "map name T' = map name ?T" using ih nm by simp
    show "rankOK rk T'" using ih by simp
    show "totalHeight rk T' \<le> totalHeight rk ?T" using ih hs by linarith
    show "found \<or> totalHeight rk T' < totalHeight rk ?T" if "found'"
    proof -
      from ih that have "?f1 \<or> totalHeight rk T' < totalHeight rk ?T1" by blast
      moreover have "totalHeight rk T' \<le> totalHeight rk ?T1" using ih by blast
      ultimately show ?thesis using hs by (cases "?v \<noteq> value dim") auto
    qed
    show "found'" if "found"
      using ih that by (auto split: if_splits)
    have unchanged: "?v = value dim" if "\<not> found'"
    proof (rule ccontr)
      assume "?v \<noteq> value dim"
      then have "?f1" by simp
      with ih have "found'" by blast
      with that show False by simp
    qed
    show "T' = ?T" if "\<not> found'"
    proof -
      from ih that have "T' = ?T1" by blast
      with unchanged[OF that] show ?thesis by simp
    qed
    show "\<forall>d \<in> set (dim # todo). set (value d) \<inter> ?N = {}" if "\<not> found'"
    proof -
      from ih that have "\<forall>d \<in> set todo. set (value d) \<inter> name ` set ?T1 = {}" by blast
      then have "\<forall>d \<in> set todo. set (value d) \<inter> ?N = {}" unfolding N1 .
      moreover have "set (value dim) \<inter> ?N = {}"
        using unchanged[OF that] changed_iff by blast
      ultimately show ?thesis by simp
    qed
    show "\<forall>d \<in> set T'. dsize d = length (value d)" if "\<forall>d \<in> set ?T. dsize d = length (value d)"
      using ih sz[OF that] by blast
  qed
qed

lemma expandLoop_terminates:
  assumes "rankOK rk T"
  shows "\<exists>T'. expandLoop T = Some T' \<and> map name T' = map name T \<and>
           (\<forall>d \<in> set T'. set (value d) \<inter> name ` set T' = {}) \<and>
           ((\<forall>d \<in> set T. dsize d = length (value d)) \<longrightarrow>
              (\<forall>d \<in> set T'. dsize d = length (value d)))"
  using assms
proof (induction "totalHeight rk T" arbitrary: T rule: less_induct)
  case less
  obtain T1 f1 where p: "expandPass [] T False = (T1, f1)" by (cases "expandPass [] T False")
  from expandPass_spec[of rk "[]" T False T1 f1] less.prems p have
    s: "map name T1 = map name T" "rankOK rk T1"
       "f1 \<longrightarrow> totalHeight rk T1 < totalHeight rk T"
       "\<not> f1 \<longrightarrow> T1 = T \<and> (\<forall>d \<in> set T. set (value d) \<inter> name ` set T = {})"
       "(\<forall>d \<in> set T. dsize d = length (value d)) \<longrightarrow> (\<forall>d \<in> set T1. dsize d = length (value d))"
    by simp_all
  show ?case
  proof (cases f1)
    case True
    with s(3) have "totalHeight rk T1 < totalHeight rk T" by simp
    from less.hyps[OF this s(2)] obtain T' where
      t: "expandLoop T1 = Some T'" "map name T' = map name T1"
         "\<forall>d \<in> set T'. set (value d) \<inter> name ` set T' = {}"
         "(\<forall>d \<in> set T1. dsize d = length (value d)) \<longrightarrow> (\<forall>d \<in> set T'. dsize d = length (value d))"
      by blast
    have "expandLoop T = Some T'"
      by (subst expandLoop.simps) (simp add: p True t(1))
    moreover have "map name T' = map name T" using t(2) s(1) by simp
    moreover have "(\<forall>d \<in> set T. dsize d = length (value d)) \<longrightarrow>
              (\<forall>d \<in> set T'. dsize d = length (value d))"
      using t(4) s(5) by blast
    ultimately show ?thesis using t(3) by blast
  next
    case False
    have "expandLoop T = Some T1"
      by (subst expandLoop.simps) (simp add: p False)
    moreover have "T1 = T" "\<forall>d \<in> set T. set (value d) \<inter> name ` set T = {}"
      using s(4) False by simp_all
    ultimately show ?thesis by simp
  qed
qed

lemma finite_dimGraph: "finite (dimGraph T)"
proof -
  have "dimGraph T \<subseteq> (name ` set T) \<times> (\<Union>d \<in> set T. set (value d))"
    by (auto simp: dimGraph_def)
  moreover have "finite ((name ` set T) \<times> (\<Union>d \<in> set T. set (value d)))" by simp
  ultimately show ?thesis by (rule finite_subset)
qed

lemma acyclic_rank:
  assumes "finite r" "acyclic r"
  shows "\<exists>rk :: 'a \<Rightarrow> nat. \<forall>(a, b) \<in> r. rk b < rk a"
proof -
  let ?rk = "\<lambda>x. card {y. (x, y) \<in> r\<^sup>+}"
  have fin: "finite {y. (x, y) \<in> r\<^sup>+}" for x
  proof -
    have "finite (r\<^sup>+)" using assms(1) by simp
    then have "finite (snd ` (r\<^sup>+))" by simp
    moreover have "{y. (x, y) \<in> r\<^sup>+} \<subseteq> snd ` (r\<^sup>+)" by force
    ultimately show ?thesis by (rule rev_finite_subset)
  qed
  have "?rk b < ?rk a" if ab: "(a, b) \<in> r" for a b
  proof (rule psubset_card_mono[OF fin])
    have "{y. (b, y) \<in> r\<^sup>+} \<subseteq> {y. (a, y) \<in> r\<^sup>+}"
      using ab by auto
    moreover have "b \<in> {y. (a, y) \<in> r\<^sup>+}" using ab by auto
    moreover have "b \<notin> {y. (b, y) \<in> r\<^sup>+}" using assms(2) by (auto simp: acyclic_def)
    ultimately show "{y. (b, y) \<in> r\<^sup>+} \<subset> {y. (a, y) \<in> r\<^sup>+}" by blast
  qed
  then show ?thesis by (intro exI[of _ ?rk]) auto
qed

lemma rank_acyclic:
  assumes "\<forall>(a, b) \<in> r. (rk :: 'a \<Rightarrow> nat) b < rk a"
  shows "acyclic r"
proof -
  have "r \<subseteq> (inv_image less_than rk)\<inverse>"
    using assms by auto
  moreover have "acyclic ((inv_image less_than rk)\<inverse>)"
    unfolding acyclic_converse by (intro wf_acyclic wf_inv_image wf_less_than)
  ultimately show ?thesis by (metis acyclic_subset)
qed

lemma rankOK_dimGraph: "rankOK rk T \<longleftrightarrow> (\<forall>(a, b) \<in> dimGraph T. rk b < rk a)"
  by (auto simp: rankOK_def dimGraph_def subDim_None) 

text \<open>
  Claim C6, as the code has it. For every input whose dimension-name graph is acyclic, and
  in which the size of every dimension is the length of its value, the expansion loop ends;
  it leaves the names of the dimensions as they are, no value holds the name of a dimension
  any more, and the size of every dimension is the length of its value. The code has no
  check for a cycle and no error for one; nothing is stated here for a cyclic graph.
\<close>

theorem expandLoop_acyclic:
  assumes "acyclic (dimGraph allDims)"
      and "\<forall>d \<in> set allDims. dsize d = length (value d)"
  shows "\<exists>allDims'. expandLoop allDims = Some allDims' \<and>
           map name allDims' = map name allDims \<and>
           (\<forall>d \<in> set allDims'. (\<forall>s \<in> set (value d). subDim allDims' s = None) \<and>
               dsize d = length (value d))"
proof -
  from acyclic_rank[OF finite_dimGraph assms(1)] obtain rk :: "string \<Rightarrow> nat" where
    "\<forall>(a, b) \<in> dimGraph allDims. rk b < rk a" by blast
  then have "rankOK rk allDims" by (simp add: rankOK_dimGraph)
  from expandLoop_terminates[OF this] assms(2) obtain T' where
    t: "expandLoop allDims = Some T'" "map name T' = map name allDims"
       "\<forall>d \<in> set T'. set (value d) \<inter> name ` set T' = {}"
       "\<forall>d \<in> set T'. dsize d = length (value d)"
    by blast
  from t(3) have "\<forall>d \<in> set T'. \<forall>s \<in> set (value d). subDim T' s = None"
    unfolding subDim_None by blast
  with t show ?thesis by blast
qed

lemmas expand_defs = expandValue_def subDim_def exampleDim_def exampleCyclicDims_def
  exampleNestedDims_def exampleCyclicExpanded_def exampleNestedExpanded_def Let_def

lemma example_nested_rounds:
  "expandPass [] exampleNestedDims False =
     ([exampleDim ''_all'' [''_n1'', ''_n2'', ''_s1'', ''_s1'', ''_deep''] ''_all'',
       exampleDim ''_north'' [''_n1'', ''_n2''] ''_north'',
       exampleDim ''_south'' [''_s1'', ''_s2'', ''_s3''] ''_south'',
       exampleDim ''_deep'' [''_s2'', ''_s3''] ''_deep''], True)"
  "expandPass []
     [exampleDim ''_all'' [''_n1'', ''_n2'', ''_s1'', ''_s1'', ''_deep''] ''_all'',
       exampleDim ''_north'' [''_n1'', ''_n2''] ''_north'',
       exampleDim ''_south'' [''_s1'', ''_s2'', ''_s3''] ''_south'',
       exampleDim ''_deep'' [''_s2'', ''_s3''] ''_deep''] False =
     (exampleNestedExpanded, True)"
  "expandPass [] exampleNestedExpanded False = (exampleNestedExpanded, False)"
  by (simp_all add: expand_defs)

lemma example_nested_expanded: "expandLoop exampleNestedDims = Some exampleNestedExpanded"
  apply (subst expandLoop.simps)
  apply (simp only: example_nested_rounds fst_conv snd_conv if_True)
  apply (subst expandLoop.simps)
  apply (simp only: example_nested_rounds fst_conv snd_conv if_True)
  apply (subst expandLoop.simps)
  apply (simp only: example_nested_rounds fst_conv snd_conv if_False)
  done

lemma example_nested_acyclic: "acyclic (dimGraph exampleNestedDims)"
proof -
  let ?rk = "\<lambda>s. if s = ''_all'' then 2 else if s = ''_south'' then 1 else (0::nat)"
  have "rankOK ?rk exampleNestedDims"
    by (simp add: rankOK_def exampleNestedDims_def exampleDim_def)
  then show ?thesis
    unfolding rankOK_dimGraph by (rule rank_acyclic)
qed

theorem expandLoop_acyclic_witness:
  "acyclic (dimGraph exampleNestedDims) \<and>
   list_all (\<lambda>d. dsize d = length (value d)) exampleNestedDims \<and>
   expandLoop exampleNestedDims = Some exampleNestedExpanded \<and>
   list_all (\<lambda>d. list_all (\<lambda>s. subDim exampleNestedExpanded s = None) (value d) \<and>
                 dsize d = length (value d)) exampleNestedExpanded"
proof -
  have h2: "\<forall>d \<in> set exampleNestedDims. dsize d = length (value d)"
    by (simp add: exampleNestedDims_def exampleDim_def)
  from expandLoop_acyclic[OF example_nested_acyclic h2] obtain T' where
    t: "expandLoop exampleNestedDims = Some T'"
       "\<forall>d \<in> set T'. (\<forall>s \<in> set (value d). subDim T' s = None) \<and> dsize d = length (value d)"
    by blast
  from t(1) have T': "T' = exampleNestedExpanded"
    by (simp add: example_nested_expanded)
  from t(2) have "list_all (\<lambda>d. list_all (\<lambda>s. subDim T' s = None) (value d) \<and>
                 dsize d = length (value d)) T'"
    by (simp add: list_all_iff)
  moreover have "list_all (\<lambda>d. dsize d = length (value d)) exampleNestedDims"
    using h2 by (simp add: list_all_iff)
  ultimately show ?thesis
    using example_nested_acyclic example_nested_expanded unfolding T' by simp
qed

text \<open>
  Two dimensions declared in terms of each other: the graph has a cycle, and the loop ends
  after two rounds without any error, leaving the name of the dimension \<open>_a\<close> in both values.
\<close>

lemma dimGraph_edge:
  "d \<in> set T \<Longrightarrow> s \<in> set (value d) \<Longrightarrow> subDim T s \<noteq> None \<Longrightarrow> (name d, s) \<in> dimGraph T"
  by (auto simp: dimGraph_def)

lemma example_cyclic_rounds:
  "expandPass [] exampleCyclicDims False = (exampleCyclicExpanded, True)"
  "expandPass [] exampleCyclicExpanded False = (exampleCyclicExpanded, False)"
  by (simp_all add: expand_defs)

theorem cyclic_dimension_counterexample:
  "\<not> acyclic (dimGraph exampleCyclicDims) \<and>
   expandLoop exampleCyclicDims = Some exampleCyclicExpanded \<and>
   value (exampleCyclicExpanded ! 0) = [''_a''] \<and>
   subDim exampleCyclicExpanded ''_a'' = Some (exampleCyclicExpanded ! 0)"
proof -
  have "(name (exampleDim ''_a'' [''_b''] ''_a''), ''_b'') \<in> dimGraph exampleCyclicDims"
    by (rule dimGraph_edge) (simp_all add: exampleCyclicDims_def subDim_def exampleDim_def)
  moreover have "(name (exampleDim ''_b'' [''_a''] ''_b''), ''_a'') \<in> dimGraph exampleCyclicDims"
    by (rule dimGraph_edge) (simp_all add: exampleCyclicDims_def subDim_def exampleDim_def)
  ultimately have "(''_a'', ''_b'') \<in> dimGraph exampleCyclicDims" "(''_b'', ''_a'') \<in> dimGraph exampleCyclicDims"
    by (simp_all add: exampleDim_def)
  then have "(''_a'', ''_a'') \<in> (dimGraph exampleCyclicDims)\<^sup>+"
    by (meson trancl.r_into_trancl trancl_trans)
  then have 1: "\<not> acyclic (dimGraph exampleCyclicDims)"
    by (auto simp: acyclic_def)
  have 2: "expandLoop exampleCyclicDims = Some exampleCyclicExpanded"
    apply (subst expandLoop.simps)
    apply (simp only: example_cyclic_rounds fst_conv snd_conv if_True)
    apply (subst expandLoop.simps)
    apply (simp only: example_cyclic_rounds fst_conv snd_conv if_False)
    done
  have 3: "value (exampleCyclicExpanded ! 0) = [''_a'']"
          "subDim exampleCyclicExpanded ''_a'' = Some (exampleCyclicExpanded ! 0)"
    by (simp_all add: subDim_def exampleCyclicExpanded_def exampleDim_def)
  from 1 2 3 show ?thesis by simp
qed

subsection \<open>Topological orders\<close>

lemma precedes_Cons:
  "precedes a b (x # xs) \<longleftrightarrow> (x \<noteq> b \<and> (a = x \<and> b \<in> set xs \<or> precedes a b xs))"
  by (cases "x = b") (auto simp: precedes_def)

lemma precedes_neq: "precedes a b xs \<Longrightarrow> a \<noteq> b"
  by (auto simp: precedes_def dest: set_takeWhileD)

lemma precedes_in: "precedes a b xs \<Longrightarrow> a \<in> set xs \<and> b \<in> set xs"
  by (auto simp: precedes_def dest: set_takeWhileD)

lemma precedes_append_left: "precedes a b xs \<Longrightarrow> precedes a b (xs @ ys)"
proof (induction xs)
  case Nil
  then show ?case by (simp add: precedes_def)
next
  case (Cons x xs)
  then show ?case by (auto simp: precedes_Cons)
qed

lemma precedes_append_right:
  "b \<notin> set xs \<Longrightarrow> precedes a b ys \<Longrightarrow> precedes a b (xs @ ys)"
  by (induction xs) (auto simp: precedes_Cons)

lemma precedes_split:
  "a \<in> set xs \<Longrightarrow> b \<notin> set xs \<Longrightarrow> b \<in> set ys \<Longrightarrow> precedes a b (xs @ ys)"
proof (induction xs)
  case Nil
  then show ?case by simp
next
  case (Cons x xs)
  then show ?case by (auto simp: precedes_Cons)
qed

lemma precedes_decomp:
  assumes "precedes a b xs"
  shows "\<exists>pre post. xs = pre @ b # post \<and> a \<in> set pre \<and> b \<notin> set pre"
proof -
  let ?pre = "takeWhile (\<lambda>x. x \<noteq> b) xs"
  let ?rest = "dropWhile (\<lambda>x. x \<noteq> b) xs"
  from assms have a: "a \<in> set ?pre" and b: "b \<in> set xs" by (auto simp: precedes_def)
  from b have "?rest \<noteq> []" by (auto simp: dropWhile_eq_Nil_conv)
  then obtain y post where r: "?rest = y # post" by (cases ?rest) auto
  then have "y = b" using hd_dropWhile[of "\<lambda>x. x \<noteq> b" xs] by force
  with r have "xs = ?pre @ b # post" by (metis takeWhile_dropWhile_id)
  moreover have "b \<notin> set ?pre" by (auto dest: set_takeWhileD)
  ultimately show ?thesis using a by blast
qed

lemma precedes_rev:
  assumes "distinct xs" "precedes a b xs"
  shows "precedes b a (rev xs)"
proof -
  from precedes_decomp[OF assms(2)] obtain pre post where
    x: "xs = pre @ b # post" "a \<in> set pre" "b \<notin> set pre" by blast
  with assms(1) have "a \<notin> set post" "a \<noteq> b" by auto
  then have "precedes b a ((rev post @ [b]) @ rev pre)"
    using x(2) by (intro precedes_split) auto
  then show ?thesis using x(1) by simp
qed

lemma precedes_map:
  assumes "inj_on f (set xs)" "precedes a b xs"
  shows "precedes (f a) (f b) (map f xs)"
proof -
  from precedes_decomp[OF assms(2)] obtain pre post where
    x: "xs = pre @ b # post" "a \<in> set pre" "b \<notin> set pre" by blast
  have "f b \<notin> f ` set pre"
  proof
    assume "f b \<in> f ` set pre"
    then obtain c where c: "c \<in> set pre" "f c = f b" by auto
    with assms(1) x(1) have "c = b" by (auto simp: inj_on_def)
    with c(1) x(3) show False by simp
  qed
  then have "precedes (f a) (f b) (map f pre @ map f (b # post))"
    using x(2) by (intro precedes_split) auto
  then show ?thesis using x(1) by simp
qed

lemma precedes_filter:
  assumes "P a" "P b" "precedes a b xs"
  shows "precedes a b (filter P xs)"
proof -
  from precedes_decomp[OF assms(3)] obtain pre post where
    x: "xs = pre @ b # post" "a \<in> set pre" "b \<notin> set pre" by blast
  have "precedes a b (filter P pre @ filter P (b # post))"
    using x(2,3) assms(1,2) by (intro precedes_split) auto
  then show ?thesis using x(1) by simp
qed

lemma selectLoop_sound:
  assumes "distinct remaining" "selectLoop fuel graph remaining = Some order"
  shows "distinct order \<and> set order = set remaining \<and>
         (\<forall>(a, b) \<in> set graph. a \<in> set remaining \<and> b \<in> set remaining \<longrightarrow> precedes a b order)"
  using assms
proof (induction fuel arbitrary: remaining order)
  case 0
  then show ?case by (auto split: if_splits)
next
  case (Suc fuel)
  show ?case
  proof (cases "remaining = []")
    case True
    with Suc.prems show ?thesis by simp
  next
    case False
    with Suc.prems(2) obtain n rest where
      n: "find (\<lambda>n. list_all (\<lambda>(a, b). b \<noteq> n \<or> a \<notin> set remaining) graph) remaining = Some n"
      and rest: "selectLoop fuel graph (removeAll n remaining) = Some rest"
      and order: "order = n # rest"
      by (auto split: option.splits)
    from n have nin: "n \<in> set remaining"
      and free: "list_all (\<lambda>(a, b). b \<noteq> n \<or> a \<notin> set remaining) graph"
      by (auto simp: find_Some_iff)
    have "distinct (removeAll n remaining)" using Suc.prems(1) by (simp add: distinct_removeAll)
    from Suc.IH[OF this rest] have
      ih: "distinct rest" "set rest = set remaining - {n}"
          "\<forall>(a, b) \<in> set graph. a \<in> set remaining - {n} \<and> b \<in> set remaining - {n} \<longrightarrow> precedes a b rest"
      by auto
    have "precedes a b order" if e: "(a, b) \<in> set graph" "a \<in> set remaining" "b \<in> set remaining" for a b
    proof -
      from free e(1,2) have bn: "b \<noteq> n" by (auto simp: list_all_iff)
      with e(3) ih(2) have brest: "b \<in> set rest" by simp
      show ?thesis
      proof (cases "a = n")
        case True
        with bn brest show ?thesis by (simp add: order precedes_Cons)
      next
        case False
        with e bn ih(3) have "precedes a b rest" by auto
        with bn show ?thesis by (simp add: order precedes_Cons)
      qed
    qed
    with ih nin show ?thesis by (auto simp: order)
  qed
qed

lemma toposortBySelection_sound: "sortsTopologically toposortBySelection"
  unfolding sortsTopologically_def
proof (intro allI impI)
  fix graph :: "('a \<times> 'a) list" and order
  assume t: "toposortBySelection graph = Some order"
  let ?nodes = "remdups (concat (map (\<lambda>(a, b). [a, b]) graph))"
  have sn: "set ?nodes = graphNodes graph"
    by (force simp: graphNodes_def)
  from t have "selectLoop (length ?nodes) graph ?nodes = Some order"
    by (simp add: toposortBySelection_def Let_def)
  from selectLoop_sound[OF _ this] have
    "distinct order \<and> set order = set ?nodes \<and>
       (\<forall>(a, b) \<in> set graph. a \<in> set ?nodes \<and> b \<in> set ?nodes \<longrightarrow> precedes a b order)"
    by simp
  then have
    s: "distinct order" "set order = graphNodes graph"
       "\<forall>(a, b) \<in> set graph. a \<in> graphNodes graph \<and> b \<in> graphNodes graph \<longrightarrow> precedes a b order"
    unfolding sn by blast+
  have "precedes a b order" if "(a, b) \<in> set graph" for a b
  proof -
    from that have "a \<in> graphNodes graph" "b \<in> graphNodes graph"
      by (force simp: graphNodes_def)+
    with s(3) that show ?thesis by blast
  qed
  then have "list_all (\<lambda>(a, b). precedes a b order) graph"
    by (auto simp: list_all_iff)
  with s show "isTopologicalOrder graph order"
    by (simp add: isTopologicalOrder_def)
qed


subsection \<open>Step-time orders\<close>

lemma mapE_Inr: "mapE f xs = Inr ys \<Longrightarrow> list_all2 (\<lambda>x y. f x = Inr y) xs ys"
  by (induction xs arbitrary: ys) (auto split: sum.splits)

lemma mapE_map:
  assumes "mapE f xs = Inr ys" "\<forall>x \<in> set xs. \<forall>y. f x = Inr y \<longrightarrow> y = g x"
  shows "ys = map g xs"
proof -
  from mapE_Inr[OF assms(1)] have "list_all2 (\<lambda>x y. f x = Inr y) xs ys" .
  then show ?thesis using assms(2)
    by (induction rule: list_all2_induct) auto
qed

lemma lookup_self:
  assumes "distinct (map refId variables)" "v \<in> set variables"
  shows "varWithRefId reg variables (refId v) = Inr (Some v)"
  using find_distinct_key[OF assms] by (simp add: varWithRefId_def)

lemma find_member: "find P xs = Some x \<Longrightarrow> x \<in> set xs"
  by (induction xs) (auto split: if_splits)

lemma findMatch_member:
  "findMatch reg vs rs rids = Inr (Some r) \<Longrightarrow> r \<in> set vs"
proof (induction rids)
  case Nil
  then show ?case by simp
next
  case (Cons a rids)
  from Cons.prems obtain vn subs where sp: "splitRefId reg a = Inr (vn, subs)"
    by (cases "splitRefId reg a") auto
  show ?case
  proof (cases "matchLoop reg subs rs 0")
    case True
    with Cons.prems sp have "find (\<lambda>v. refId v = a) vs = Some r" by simp
    then show ?thesis by (rule find_member)
  next
    case False
    with Cons.prems sp have "findMatch reg vs rs rids = Inr (Some r)" by simp
    then show ?thesis by (rule Cons.IH)
  qed
qed

lemma varWithRefId_member:
  assumes "varWithRefId reg variables rid = Inr (Some r)"
  shows "r \<in> set variables"
proof (cases "find (\<lambda>v. refId v = rid) variables")
  case None
  with assms obtain nm rs where
    "splitRefId reg rid = Inr (nm, rs)"
    "findMatch reg variables rs (refIdsWithName variables nm) = Inr (Some r)"
    unfolding varWithRefId_def by (cases "splitRefId reg rid") auto
  then show ?thesis by (auto dest: findMatch_member)
next
  case (Some v)
  with assms have "find (\<lambda>v. refId v = rid) variables = Some r"
    by (simp add: varWithRefId_def)
  then show ?thesis by (rule find_member)
qed

lemma mapE_set: "mapE f xs = Inr ys \<Longrightarrow> set ys = {y. \<exists>x \<in> set xs. f x = Inr y}"
proof (induction xs arbitrary: ys)
  case Nil
  then show ?case by simp
next
  case (Cons x xs)
  from Cons.prems obtain y ys' where
    y: "f x = Inr y" "mapE f xs = Inr ys'" "ys = y # ys'"
    by (auto split: sum.splits)
  from Cons.IH[OF y(2)] y(1,3) show ?case by auto
qed

lemma defined_Inr: "defined l = Inr r \<longleftrightarrow> l = Some r"
  by (cases l) (simp_all add: defined_def)

lemma refsOfVar_set:
  assumes "refsOfVar reg variables ty v = Inr ps"
  shows "set ps = {depPair v r | r. varType r = ty \<and>
           (\<exists>rid \<in> set (references v). varWithRefId reg variables rid = Inr (Some r))}"
proof -
  from assms obtain looked where
    l: "mapE (varWithRefId reg variables) (references v) = Inr looked"
    unfolding refsOfVar_def by (cases "mapE (varWithRefId reg variables) (references v)") auto
  from assms l obtain refs where
    d: "mapE defined looked = Inr refs"
    unfolding refsOfVar_def by (cases "mapE defined looked") auto
  have ps: "ps = map (depPair v) (uniq (filter (\<lambda>ref. varType ref = ty) refs))"
    using assms l d unfolding refsOfVar_def depPair_def[abs_def] by simp
  have "set refs = {r. Some r \<in> set looked}"
    unfolding mapE_set[OF d] by (simp add: defined_Inr)
  also have "\<dots> = {r. \<exists>rid \<in> set (references v). varWithRefId reg variables rid = Inr (Some r)}"
    unfolding mapE_set[OF l] by simp
  finally have sr: "set refs =
      {r. \<exists>rid \<in> set (references v). varWithRefId reg variables rid = Inr (Some r)}" .
  have "set ps = depPair v ` {r \<in> set refs. varType r = ty}"
    unfolding ps by (simp add: set_uniq)
  then show ?thesis unfolding sr by blast
qed

lemma graph_set:
  assumes "mapE (refsOfVar reg variables ty) (varsOfType ty variables) = Inr pairs"
  shows "set (concat pairs) = {depPair v r | v r. stepDependency reg variables ty v r}"
proof -
  from mapE_Inr[OF assms] have
    l: "list_all2 (\<lambda>v ps. refsOfVar reg variables ty v = Inr ps) (varsOfType ty variables) pairs" .
  show ?thesis
  proof (intro equalityI subsetI)
    fix e assume "e \<in> set (concat pairs)"
    then obtain ps where ps: "ps \<in> set pairs" "e \<in> set ps" by auto
    then obtain i where i: "i < length pairs" "pairs ! i = ps" by (auto simp: in_set_conv_nth)
    let ?v = "varsOfType ty variables ! i"
    from l i have r: "refsOfVar reg variables ty ?v = Inr ps" and iv: "i < length (varsOfType ty variables)"
      by (auto simp: list_all2_conv_all_nth)
    from iv have "?v \<in> set (varsOfType ty variables)" by simp
    with ps(2) refsOfVar_set[OF r] show "e \<in> {depPair v r | v r. stepDependency reg variables ty v r}"
      by (auto simp: stepDependency_def)
  next
    fix e assume "e \<in> {depPair v r | v r. stepDependency reg variables ty v r}"
    then obtain v r where e: "e = depPair v r" and sd: "stepDependency reg variables ty v r" by blast
    from sd have "v \<in> set (varsOfType ty variables)" by (simp add: stepDependency_def)
    then obtain i where i: "i < length (varsOfType ty variables)" "varsOfType ty variables ! i = v"
      by (auto simp: in_set_conv_nth)
    with l have r: "refsOfVar reg variables ty v = Inr (pairs ! i)" and ip: "i < length pairs"
      by (auto simp: list_all2_conv_all_nth)
    from refsOfVar_set[OF r] sd e have "e \<in> set (pairs ! i)"
      by (auto simp: stepDependency_def)
    with ip show "e \<in> set (concat pairs)" by auto
  qed
qed

lemma stepDependency_table:
  assumes "stepDependency reg variables ty v r"
  shows "v \<in> set variables" "r \<in> set variables" "varType v = ty" "varType r = ty"
        "varName v \<noteq> ''_time''"
  using assms by (auto simp: stepDependency_def varsOfType_def dest: varWithRefId_member)

lemma depPair_type:
  assumes "varType v = ty" "varType r = ty"
  shows "depPair v r = (if ty = ''level'' then (refId r, refId v) else (refId v, refId r))"
  using assms by (auto simp: depPair_def)

text \<open>
  Claim C2. Let \<open>toposort\<close> sort topologically and let the reference identifiers of the table
  be unique. A sequence that \<open>sortVarsOfType\<close> returns for a type consists of the records of
  the type that take part in no dependency, sorted by reference identifier, followed by the
  records of the type that take part in one, each once, in an order in which, for every
  dependency of a record \<open>v\<close> on a record \<open>r\<close> of the same type, \<open>r\<close> stands before \<open>v\<close>; for
  the type \<open>level\<close> every edge is between two levels and is inverted, so that \<open>v\<close> stands
  before \<open>r\<close>. (The placeholder \<open>_time\<close> is left out of every sequence.)
\<close>

theorem sortVarsOfType_order:
  assumes topo: "sortsTopologically toposort"
      and dist: "distinct (map refId variables)"
      and res: "sortVarsOfType toposort reg variables ty = Inr sequence"
  shows "\<exists>dep. sequence = vsort (filter (\<lambda>v. \<not> inStepGraph reg variables ty v)
                                 (varsOfType ty variables)) @ dep \<and>
           distinct dep \<and>
           set dep = {v \<in> set (varsOfType ty variables). inStepGraph reg variables ty v} \<and>
           (\<forall>v r. stepDependency reg variables ty v r \<and> varName r \<noteq> ''_time'' \<longrightarrow>
                (if ty = ''level'' then precedes v r dep else precedes r v dep))"
proof -
  let ?vars = "varsOfType ty variables"
  from res obtain pairs where
    pairs: "mapE (refsOfVar reg variables ty) ?vars = Inr pairs"
    unfolding sortVarsOfType_def Let_def
    by (cases "mapE (refsOfVar reg variables ty) ?vars") auto
  let ?graph = "concat pairs"
  from res pairs obtain order where
    order: "toposort ?graph = Some order"
    unfolding sortVarsOfType_def Let_def by (cases "toposort ?graph") auto
  from res pairs order obtain looked where
    looked: "mapE (lookupDefined reg variables) (rev order) = Inr looked"
    unfolding sortVarsOfType_def Let_def
    by (cases "mapE (lookupDefined reg variables) (rev order)") auto
  let ?dep = "varsOfType ty looked"
  have sequence: "sequence = vsort (filter (\<lambda>v. v \<notin> set ?dep) ?vars) @ ?dep"
    using res pairs order looked unfolding sortVarsOfType_def Let_def by simp
  have gs: "set ?graph = {depPair v r | v r. stepDependency reg variables ty v r}"
    using pairs by (rule graph_set)
  from topo order have to: "isTopologicalOrder ?graph order"
    by (simp add: sortsTopologically_def)
  then have od: "distinct order" and on: "set order = graphNodes ?graph"
    and oe: "\<forall>(a, b) \<in> set ?graph. precedes a b order"
    by (auto simp: isTopologicalOrder_def list_all_iff)

  text \<open>Every node of the graph is the reference identifier of a record of the table.\<close>
  have node: "\<exists>x \<in> set variables. refId x = n \<and> varType x = ty \<and> inStepGraph reg variables ty x"
    if "n \<in> graphNodes ?graph" for n
  proof -
    from that obtain v r where sd: "stepDependency reg variables ty v r"
      and n: "n = fst (depPair v r) \<or> n = snd (depPair v r)"
      unfolding graphNodes_def gs by force
    note t = stepDependency_table[OF sd]
    from n depPair_type[OF t(3,4)] have "n = refId v \<or> n = refId r"
      by (auto split: if_splits)
    moreover have "inStepGraph reg variables ty v" "inStepGraph reg variables ty r"
      using sd by (auto simp: inStepGraph_def)
    ultimately show ?thesis using t by blast
  qed

  have onode: "\<exists>x \<in> set variables. refId x = n \<and> varType x = ty \<and> inStepGraph reg variables ty x"
    if "n \<in> set order" for n
    using node[of n] that on by simp

  define var where "var n = (THE x. x \<in> set variables \<and> refId x = n)" for n
  have var_eq: "var (refId x) = x" if "x \<in> set variables" for x
  proof -
    have "(THE y. y \<in> set variables \<and> refId y = refId x) = x"
    proof (rule the_equality)
      show "x \<in> set variables \<and> refId x = refId x" using that by simp
    next
      fix y assume "y \<in> set variables \<and> refId y = refId x"
      with dist that show "y = x" by (meson distinct_map inj_onD)
    qed
    then show ?thesis by (simp add: var_def)
  qed
  have lk: "looked = map var (rev order)"
  proof (rule mapE_map[OF looked], intro ballI allI impI)
    fix n y assume n: "n \<in> set (rev order)" and y: "lookupDefined reg variables n = Inr y"
    from n on have "n \<in> graphNodes ?graph" by simp
    from node[OF this] obtain x where x: "x \<in> set variables" "refId x = n" by blast
    from lookup_self[OF dist x(1), of reg] x(2) y have "y = x"
      by (simp add: lookupDefined_def defined_def)
    with var_eq[OF x(1)] x(2) show "y = var n" by simp
  qed
  have inj: "inj_on var (set (rev order))"
  proof (rule inj_onI)
    fix a b assume a: "a \<in> set (rev order)" and b: "b \<in> set (rev order)" and e: "var a = var b"
    from a onode[of a] obtain x where x: "x \<in> set variables" "refId x = a" by auto
    from b onode[of b] obtain y where y: "y \<in> set variables" "refId y = b" by auto
    from e var_eq[OF x(1)] var_eq[OF y(1)] x(2) y(2) have "x = y" by simp
    with x(2) y(2) show "a = b" by simp
  qed
  have dl: "distinct looked"
    unfolding lk using od inj by (simp add: distinct_map)
  have dd: "distinct ?dep"
    using dl by (simp add: varsOfType_def)

  text \<open>A record of the type is in the sequence part exactly when it takes part in the graph.\<close>
  have mem: "v \<in> set ?dep \<longleftrightarrow> inStepGraph reg variables ty v" if v: "v \<in> set ?vars" for v
  proof
    assume "v \<in> set ?dep"
    then have "v \<in> set looked" by (simp add: varsOfType_def)
    then obtain n where n: "n \<in> set order" "v = var n" unfolding lk by auto
    from onode[OF n(1)] obtain x where x: "x \<in> set variables" "refId x = n"
      "inStepGraph reg variables ty x" by blast
    with var_eq[OF x(1)] n(2) show "inStepGraph reg variables ty v" by simp
  next
    assume "inStepGraph reg variables ty v"
    then obtain w where "stepDependency reg variables ty v w \<or> stepDependency reg variables ty w v"
      by (auto simp: inStepGraph_def)
    then have "refId v \<in> graphNodes ?graph"
    proof
      assume sd: "stepDependency reg variables ty v w"
      note t = stepDependency_table[OF sd]
      have "depPair v w \<in> set ?graph" unfolding gs using sd by blast
      then show ?thesis
        unfolding graphNodes_def depPair_type[OF t(3,4)] by (force split: if_splits)
    next
      assume sd: "stepDependency reg variables ty w v"
      note t = stepDependency_table[OF sd]
      have "depPair w v \<in> set ?graph" unfolding gs using sd by blast
      then show ?thesis
        unfolding graphNodes_def depPair_type[OF t(3,4)] by (force split: if_splits)
    qed
    then have "refId v \<in> set (rev order)" using on by simp
    moreover have vt: "v \<in> set variables" using v by (simp add: varsOfType_def)
    ultimately have "v \<in> set looked"
      unfolding lk using var_eq[OF vt] by force
    with v show "v \<in> set ?dep" by (simp add: varsOfType_def)
  qed
  have nodep: "filter (\<lambda>v. v \<notin> set ?dep) ?vars = filter (\<lambda>v. \<not> inStepGraph reg variables ty v) ?vars"
    by (rule filter_cong) (auto simp: mem)
  have depsub: "set ?dep \<subseteq> set ?vars"
  proof
    fix x assume x: "x \<in> set ?dep"
    then have "x \<in> set looked" and p: "varType x = ty \<and> varName x \<noteq> ''_time''"
      by (simp_all add: varsOfType_def)
    then obtain n where n: "n \<in> set order" "x = var n" unfolding lk by auto
    from onode[OF n(1)] obtain y where y: "y \<in> set variables" "refId y = n" by blast
    with var_eq[OF y(1)] n(2) have "x \<in> set variables" by simp
    with p show "x \<in> set ?vars" by (simp add: varsOfType_def)
  qed
  have setdep: "set ?dep = {v \<in> set ?vars. inStepGraph reg variables ty v}"
    using depsub mem by blast

  text \<open>The order of the sequence part.\<close>
  have prec: "precedes (var b) (var a) ?dep"
    if e: "(a, b) \<in> set ?graph" and ta: "varName (var a) \<noteq> ''_time''" "varType (var a) = ty"
      and tb: "varName (var b) \<noteq> ''_time''" "varType (var b) = ty" for a b
  proof -
    from oe e have "precedes a b order" by auto
    with od have "precedes b a (rev order)" by (rule precedes_rev)
    with inj have "precedes (var b) (var a) looked" unfolding lk by (rule precedes_map)
    then show ?thesis
      unfolding varsOfType_def using ta tb by (intro precedes_filter) auto
  qed
  have ord: "if ty = ''level'' then precedes v r ?dep else precedes r v ?dep"
    if sd: "stepDependency reg variables ty v r" and nt: "varName r \<noteq> ''_time''" for v r
  proof -
    note t = stepDependency_table[OF sd]
    have e: "depPair v r \<in> set ?graph" unfolding gs using sd by blast
    have vv: "var (refId v) = v" "var (refId r) = r" using t var_eq by auto
    show ?thesis
    proof (cases "ty = ''level''")
      case True
      with e depPair_type[OF t(3,4)] have "(refId r, refId v) \<in> set ?graph" by simp
      from prec[OF this] vv t nt have "precedes v r ?dep" by simp
      with True show ?thesis by simp
    next
      case False
      with e depPair_type[OF t(3,4)] have "(refId v, refId r) \<in> set ?graph" by simp
      from prec[OF this] vv t nt have "precedes r v ?dep" by simp
      with False show ?thesis by simp
    qed
  qed
  have s1: "sequence = vsort (filter (\<lambda>v. \<not> inStepGraph reg variables ty v) ?vars) @ ?dep"
    using sequence nodep by simp
  have s4: "\<forall>v r. stepDependency reg variables ty v r \<and> varName r \<noteq> ''_time'' \<longrightarrow>
                (if ty = ''level'' then precedes v r ?dep else precedes r v ?dep)"
    using ord by blast
  show ?thesis
    by (rule exI[of _ ?dep], intro conjI) (fact s1 dd setdep s4)+
qed

lemmas sort_defs = sortVarsOfType_def refsOfVar_def varsOfType_def lookupDefined_def defined_def
  vsort_def toposortBySelection_def exampleSortTable_def Let_def

lemma example_aux_sequence:
  "sortVarsOfType toposortBySelection exampleReg exampleSortTable ''aux'' =
     Inr [exampleVar ''_w'' [] ''_w'' ''aux'' False [] [],
          exampleVar ''_z'' [] ''_z'' ''aux'' False [] [],
          exampleVar ''_y'' [] ''_y'' ''aux'' False [] [],
          exampleVar ''_x'' [] ''_x'' ''aux'' False [''_y''] []]"
  by (simp add: sort_defs example_defs lookup_defs)

lemma example_step_dependency:
  "stepDependency exampleReg exampleSortTable ''aux''
     (exampleVar ''_x'' [] ''_x'' ''aux'' False [''_y''] [])
     (exampleVar ''_y'' [] ''_y'' ''aux'' False [] [])"
  unfolding stepDependency_def
  by (simp add: varsOfType_def exampleSortTable_def example_defs lookup_defs)

theorem sortVarsOfType_order_witness:
  "sortsTopologically (toposortBySelection :: (string \<times> string) list \<Rightarrow> string list option) \<and>
   distinct (map refId exampleSortTable) \<and>
   sortVarsOfType toposortBySelection exampleReg exampleSortTable ''aux'' =
     Inr [exampleVar ''_w'' [] ''_w'' ''aux'' False [] [],
          exampleVar ''_z'' [] ''_z'' ''aux'' False [] [],
          exampleVar ''_y'' [] ''_y'' ''aux'' False [] [],
          exampleVar ''_x'' [] ''_x'' ''aux'' False [''_y''] []] \<and>
   stepDependency exampleReg exampleSortTable ''aux''
     (exampleVar ''_x'' [] ''_x'' ''aux'' False [''_y''] [])
     (exampleVar ''_y'' [] ''_y'' ''aux'' False [] []) \<and>
   (\<exists>dep. [exampleVar ''_w'' [] ''_w'' ''aux'' False [] [],
           exampleVar ''_z'' [] ''_z'' ''aux'' False [] [],
           exampleVar ''_y'' [] ''_y'' ''aux'' False [] [],
           exampleVar ''_x'' [] ''_x'' ''aux'' False [''_y''] []]
          = vsort (filter (\<lambda>v. \<not> inStepGraph exampleReg exampleSortTable ''aux'' v)
                     (varsOfType ''aux'' exampleSortTable)) @ dep \<and>
          precedes (exampleVar ''_y'' [] ''_y'' ''aux'' False [] [])
                   (exampleVar ''_x'' [] ''_x'' ''aux'' False [''_y''] []) dep)"
proof -
  let ?x = "exampleVar ''_x'' [] ''_x'' ''aux'' False [''_y''] []"
  let ?y = "exampleVar ''_y'' [] ''_y'' ''aux'' False [] []"
  have h1: "sortsTopologically (toposortBySelection :: (string \<times> string) list \<Rightarrow> string list option)"
    by (rule toposortBySelection_sound)
  have h2: "distinct (map refId exampleSortTable)"
    by (simp add: exampleSortTable_def example_defs)
  note h3 = example_aux_sequence
  note sd = example_step_dependency
  have nt: "varName ?y \<noteq> ''_time''" by (simp add: example_defs)
  from sortVarsOfType_order[OF h1 h2 h3] obtain dep where
    d: "[exampleVar ''_w'' [] ''_w'' ''aux'' False [] [],
           exampleVar ''_z'' [] ''_z'' ''aux'' False [] [], ?y, ?x]
          = vsort (filter (\<lambda>v. \<not> inStepGraph exampleReg exampleSortTable ''aux'' v)
                     (varsOfType ''aux'' exampleSortTable)) @ dep"
    and o: "\<forall>v r. stepDependency exampleReg exampleSortTable ''aux'' v r \<and> varName r \<noteq> ''_time'' \<longrightarrow>
                (if ''aux'' = ''level'' then precedes v r dep else precedes r v dep)"
    by blast
  from o sd nt have "precedes ?y ?x dep" by fastforce
  with d have "\<exists>dep. [exampleVar ''_w'' [] ''_w'' ''aux'' False [] [],
           exampleVar ''_z'' [] ''_z'' ''aux'' False [] [], ?y, ?x]
          = vsort (filter (\<lambda>v. \<not> inStepGraph exampleReg exampleSortTable ''aux'' v)
                     (varsOfType ''aux'' exampleSortTable)) @ dep \<and> precedes ?y ?x dep"
    by blast
  with h1 h2 h3 sd show ?thesis by (intro conjI)
qed

subsection \<open>Init-time order\<close>





lemma map_of_mapSet: "map_of (mapSet m k v) = (map_of m)(k \<mapsto> v)"
  by (induction m) (auto simp: fun_eq_iff)














text \<open>
  The loop ends when every reference identifier of a record that resolves to a record is the
  identifier of that record: a record that has reference identifiers is then taken from the
  queue once at most, and \<open>sortInitVars\<close> returns, with a sequence or with an error.
\<close>

lemma pushRefs_new:
  "pushRefs reg vs m refIds q = Inr q' \<Longrightarrow> x \<in> set q' \<Longrightarrow> x \<notin> set q \<Longrightarrow>
     \<exists>rid \<in> set refIds. varWithRefId reg vs rid = Inr (Some x) \<and> map_of m rid = None"
proof (induction refIds arbitrary: q)
  case Nil
  then show ?case by simp
next
  case (Cons rid rest)
  show ?case
  proof (cases "map_of m rid \<noteq> None")
    case True
    with Cons.prems have "pushRefs reg vs m rest q = Inr q'" by simp
    from Cons.IH[OF this Cons.prems(2,3)] show ?thesis by auto
  next
    case False
    with Cons.prems obtain lk where lk: "varWithRefId reg vs rid = Inr lk"
      by (cases "varWithRefId reg vs rid") auto
    show ?thesis
    proof (cases lk)
      case None
      with Cons.prems False lk have "pushRefs reg vs m rest q = Inr q'" by simp
      from Cons.IH[OF this Cons.prems(2,3)] show ?thesis by auto
    next
      case (Some r)
      show ?thesis
      proof (cases "varType r \<noteq> ''const'' \<and> r \<notin> set q")
        case True
        with Cons.prems False lk Some have p: "pushRefs reg vs m rest (q @ [r]) = Inr q'" by simp
        show ?thesis
        proof (cases "x = r")
          case True
          with lk Some False show ?thesis by simp
        next
          case False
          with Cons.prems(3) have "x \<notin> set (q @ [r])" by simp
          from Cons.IH[OF p Cons.prems(2) this] show ?thesis by auto
        qed
      next
        case nopush: False
        with Cons.prems False lk Some have "pushRefs reg vs m rest q = Inr q'" by auto
        from Cons.IH[OF this Cons.prems(2,3)] show ?thesis by auto
      qed
    qed
  qed
qed

lemma pushRefs_distinct:
  "pushRefs reg vs m refIds q = Inr q' \<Longrightarrow> distinct q \<Longrightarrow> distinct q'"
proof (induction refIds arbitrary: q)
  case Nil
  then show ?case by simp
next
  case (Cons rid rest)
  show ?case
  proof (cases "map_of m rid \<noteq> None")
    case True
    with Cons.prems have "pushRefs reg vs m rest q = Inr q'" by simp
    from Cons.IH[OF this Cons.prems(2)] show ?thesis .
  next
    case False
    with Cons.prems obtain lk where lk: "varWithRefId reg vs rid = Inr lk"
      by (cases "varWithRefId reg vs rid") auto
    show ?thesis
    proof (cases lk)
      case None
      with Cons.prems False lk have "pushRefs reg vs m rest q = Inr q'" by simp
      from Cons.IH[OF this Cons.prems(2)] show ?thesis .
    next
      case (Some r)
      show ?thesis
      proof (cases "varType r \<noteq> ''const'' \<and> r \<notin> set q")
        case True
        with Cons.prems False lk Some have p: "pushRefs reg vs m rest (q @ [r]) = Inr q'" by simp
        from True Cons.prems(2) have "distinct (q @ [r])" by simp
        from Cons.IH[OF p this] show ?thesis .
      next
        case nopush: False
        with Cons.prems False lk Some have "pushRefs reg vs m rest q = Inr q'" by auto
        from Cons.IH[OF this Cons.prems(2)] show ?thesis .
      qed
    qed
  qed
qed

lemma queue_length:
  assumes "distinct q" "set q \<subseteq> set vs"
  shows "length q \<le> length vs"
proof -
  have "length q = card (set q)" using assms(1) by (simp add: distinct_card)
  also have "\<dots> \<le> card (set vs)" using assms(2) by (simp add: card_mono)
  also have "\<dots> \<le> length vs" by (rule card_length)
  finally show ?thesis .
qed

lemma unmapped_less:
  assumes "v \<in> set vs" "map_of m (refId v) = None"
  shows "unmapped vs (mapSet m (refId v) rs) < unmapped vs m"
proof -
  let ?A = "{k \<in> refId ` set vs. map_of (mapSet m (refId v) rs) k = None}"
  let ?B = "{k \<in> refId ` set vs. map_of m k = None}"
  have "?A \<subseteq> ?B" by (auto simp: map_of_mapSet split: if_splits)
  moreover have "refId v \<in> ?B" using assms by simp
  moreover have "refId v \<notin> ?A" by (simp add: map_of_mapSet)
  ultimately have "?A \<subset> ?B" by blast
  moreover have "finite ?B" by simp
  ultimately show ?thesis unfolding unmapped_def by (rule psubset_card_mono[rotated])
qed

lemma depsLoop_terminates:
  assumes dist: "distinct (map refId vs)" and exact: "exactRefs reg vs"
  shows "distinct q \<Longrightarrow> set q \<subseteq> set vs \<Longrightarrow>
         (\<forall>v \<in> set q. initRefIds v \<noteq> [] \<longrightarrow> map_of m (refId v) = None) \<Longrightarrow>
         \<exists>res. depsLoop reg vs q m = Some res"
proof (induction "unmapped vs m * Suc (length vs) + length q" arbitrary: q m rule: less_induct)
  case less
  note dq = less.prems(1) and sq = less.prems(2) and J = less.prems(3)
  show ?case
  proof (cases "q = []")
    case True
    then show ?thesis by (subst depsLoop.simps) simp
  next
    case ne: False
    let ?v = "last q"
    let ?q0 = "butlast q"
    have vq: "?v \<in> set q" using ne by simp
    then have vt: "?v \<in> set vs" using sq by blast
    have dq0: "distinct ?q0" using dq by (rule distinct_butlast)
    have q0sub: "set ?q0 \<subseteq> set q" by (auto dest: in_set_butlastD)
    have vnot: "?v \<notin> set ?q0"
    proof -
      have "distinct (?q0 @ [?v])" using dq ne by simp
      then show ?thesis by simp
    qed
    show ?thesis
    proof (cases "addDepsToMap reg vs ?v ?q0 m")
      case (Inl e)
      with ne show ?thesis by (subst depsLoop.simps) simp
    next
      case (Inr qm)
      obtain q' m' where qm: "qm = (q', m')" by (cases qm)
      have unfold: "depsLoop reg vs q m = depsLoop reg vs q' m'"
        using ne Inr qm by (subst depsLoop.simps) simp
      have "\<exists>res. depsLoop reg vs q' m' = Some res"
      proof (cases "initRefIds ?v = []")
        case True
        with Inr qm have e: "q' = ?q0" "m' = m" by (simp_all add: addDepsToMap_def)
        have lt: "unmapped vs m * Suc (length vs) + length ?q0
                    < unmapped vs m * Suc (length vs) + length q"
          using ne by simp
        have s0: "set ?q0 \<subseteq> set vs" using q0sub sq by (rule subset_trans)
        have J0: "\<forall>v \<in> set ?q0. initRefIds v \<noteq> [] \<longrightarrow> map_of m (refId v) = None"
        proof (intro ballI impI)
          fix u assume "u \<in> set ?q0" "initRefIds u \<noteq> []"
          then have "u \<in> set q" using q0sub by blast
          with J \<open>initRefIds u \<noteq> []\<close> show "map_of m (refId u) = None" by simp
        qed
        from less.hyps[OF lt dq0 s0 J0] show ?thesis unfolding e .
      next
        case False
        let ?refIds = "initRefIds ?v"
        have rl: "0 < length ?refIds" using False by simp
        let ?m1 = "mapSet m (refId ?v) ?refIds"
        have step1: "(case pushRefs reg vs ?m1 ?refIds ?q0 of Inl e \<Rightarrow> Inl e
                      | Inr vars' \<Rightarrow> Inr (vars', ?m1)) = Inr (q', m')"
          using Inr qm rl unfolding addDepsToMap_def Let_def by (simp only: if_True)
        have m': "m' = ?m1" and push: "pushRefs reg vs ?m1 ?refIds ?q0 = Inr q'"
          using step1 by (cases "pushRefs reg vs ?m1 ?refIds ?q0"; simp)+
        have d': "distinct q'" using push dq0 by (rule pushRefs_distinct)
        have new: "\<exists>rid \<in> set ?refIds. varWithRefId reg vs rid = Inr (Some x) \<and> map_of ?m1 rid = None"
          if "x \<in> set q'" "x \<notin> set ?q0" for x
          using push that by (rule pushRefs_new)
        have s': "set q' \<subseteq> set vs"
        proof
          fix x assume x: "x \<in> set q'"
          show "x \<in> set vs"
          proof (cases "x \<in> set ?q0")
            case True
            with q0sub sq show ?thesis by blast
          next
            case False
            from new[OF x False] obtain rid where "varWithRefId reg vs rid = Inr (Some x)" by blast
            then show ?thesis by (rule varWithRefId_member)
          qed
        qed
        have J': "\<forall>u \<in> set q'. initRefIds u \<noteq> [] \<longrightarrow> map_of m' (refId u) = None"
        proof (intro ballI impI)
          fix u assume u: "u \<in> set q'" and ru: "initRefIds u \<noteq> []"
          show "map_of m' (refId u) = None"
          proof (cases "u \<in> set ?q0")
            case True
            with vnot have "u \<noteq> ?v" by blast
            moreover have "u \<in> set vs" using True q0sub sq by blast
            ultimately have "refId u \<noteq> refId ?v"
              using dist vt by (meson distinct_map inj_onD)
            moreover have "map_of m (refId u) = None" using J True q0sub ru by blast
            ultimately show ?thesis by (simp add: m' map_of_mapSet)
          next
            case False
            from new[OF u False] obtain rid where rid: "rid \<in> set ?refIds"
              "varWithRefId reg vs rid = Inr (Some u)" "map_of ?m1 rid = None" by blast
            have "\<forall>rid \<in> set ?refIds. \<forall>r. varWithRefId reg vs rid = Inr (Some r) \<longrightarrow> refId r = rid"
              using exact vt unfolding exactRefs_def by (rule bspec)
            with rid(1,2) have "refId u = rid" by blast
            with rid(3) show ?thesis by (simp add: m')
          qed
        qed
        have "map_of m (refId ?v) = None" using J vq False by blast
        with vt have "unmapped vs m' < unmapped vs m" unfolding m' by (rule unmapped_less)
        then have u: "Suc (unmapped vs m') \<le> unmapped vs m" by simp
        have "length q' \<le> length vs" using d' s' by (rule queue_length)
        then have "unmapped vs m' * Suc (length vs) + length q' < Suc (unmapped vs m') * Suc (length vs)"
          by simp
        also have "\<dots> \<le> unmapped vs m * Suc (length vs)"
          using u by (rule mult_le_mono1)
        finally have lt: "unmapped vs m' * Suc (length vs) + length q'
                        < unmapped vs m * Suc (length vs) + length q" by simp
        from less.hyps[OF lt d' s' J'] show ?thesis .
      qed
      then show ?thesis unfolding unfold .
    qed
  qed
qed

lemma sortInitVars_returns:
  assumes dist: "distinct (map refId variables)" and exact: "exactRefs reg variables"
  shows "\<exists>res. sortInitVars toposort reg variables = Some res"
proof -
  let ?init = "filter (\<lambda>v. hasInitValue v) variables"
  have "distinct variables" using dist by (rule distinct_map[THEN iffD1, THEN conjunct1])
  then have d: "distinct ?init" by simp
  have s: "set ?init \<subseteq> set variables" by simp
  have J: "\<forall>v \<in> set ?init. initRefIds v \<noteq> [] \<longrightarrow> map_of [] (refId v) = None" by simp
  from depsLoop_terminates[OF dist exact d s J] obtain res where
    "depsLoop reg variables ?init [] = Some res" ..
  then show ?thesis
    unfolding sortInitVars_def Let_def
    by (simp split: sum.splits option.splits)
qed

lemma example_exact_refs: "exactRefs exampleReg exampleSortTable"
  by (simp add: exactRefs_def initRefIds_def exampleSortTable_def example_defs lookup_defs)












end
